theory Spec2Isabelle
  imports Complex_Main "HOL-Library.Multiset"
begin

section \<open>Polar-volume sweep homogenisation (sort\_radar.main)\<close>

text \<open>
  A shallow embedding of \<^verbatim>\<open>main\<close> of \<^verbatim>\<open>sort_radar.py\<close>. Floating point numbers are
  idealised as reals. Every Python exception that the function can raise is a value of
  \<open>error\<close>; since the radar object is mutated in place, a failing run of \<open>main\<close>
  returns the error together with the radar object as it is at the moment of the raise.
\<close>

subsection \<open>Data model\<close>

datatype error = ValueError | IndexError | UnboundLocalError | ZeroDivisionError | KeyError

text \<open>
  Storage type of a field: a floating type, or a signed or an unsigned integer type of the
  given number of bits.
\<close>

datatype dtype = DFloat | DInt nat | DUInt nat

text \<open>A gate of a masked array: its value and its mask bit (True: invalid).\<close>

type_synonym gate = "real \<times> bool"

text \<open>A masked two-dimensional array, ray by ray.\<close>

type_synonym marray = "gate list list"

record field =
  fdtype :: dtype
  fdata :: marray

record radar =
  sweep_number :: "nat list"
  sweep_start_ray_index :: "nat list"
  sweep_end_ray_index :: "nat list"
  azimuth :: "real list"
  elevation :: "real list"
  range_data :: "real list"
  unambiguous_range :: "real list"
  fields_dict :: "(string \<times> field) list"
  nrays :: nat

text \<open>
  The library functions whose arithmetic is outside the repository are parameters of the
  model: \<open>gate_distance rg az el\<close> is the horizontal distance \<open>sqrt (x\<^sup>2 + y\<^sup>2)\<close> of the
  gate at range \<open>rg\<close> of a ray with azimuth \<open>az\<close> and elevation \<open>el\<close> (pyart's
  \<^verbatim>\<open>get_gate_x_y_z\<close>); \<open>interp1d x y xnew\<close> and \<open>interp2d x y z xnew ynew\<close> build and
  evaluate scipy's interpolators, and may raise.
\<close>

record extern =
  gate_distance :: "real \<Rightarrow> real \<Rightarrow> real \<Rightarrow> real"
  interp1d :: "real list \<Rightarrow> real list list \<Rightarrow> real list \<Rightarrow> error + real list list"
  interp2d :: "real list \<Rightarrow> real list \<Rightarrow> real list list \<Rightarrow> real list \<Rightarrow> real list
                 \<Rightarrow> error + real list list"

subsection \<open>numpy primitives\<close>

text \<open>\<^verbatim>\<open>radar.get_slice(sweep)\<close>: the half-open ray interval of a sweep.\<close>

definition get_slice :: "radar \<Rightarrow> nat \<Rightarrow> error + (nat \<times> nat)" where
  "get_slice v s =
     (if s < length (sweep_start_ray_index v) \<and> s < length (sweep_end_ray_index v)
      then Inr (sweep_start_ray_index v ! s, sweep_end_ray_index v ! s + 1)
      else Inl IndexError)"

text \<open>\<^verbatim>\<open>a[start:stop]\<close> along the ray axis.\<close>

definition slice :: "nat \<times> nat \<Rightarrow> 'a list \<Rightarrow> 'a list" where
  "slice se xs = take (snd se - fst se) (drop (fst se) xs)"

text \<open>\<^verbatim>\<open>np.delete(a, [-1], axis=0)\<close>.\<close>

definition np_delete_last :: "'a list \<Rightarrow> error + 'a list" where
  "np_delete_last xs = (if xs = [] then Inl IndexError else Inr (butlast xs))"

text \<open>Lines 39-40, 46-47, 103-104: \<^verbatim>\<open>if a.shape[0] == 361: a = np.delete(a, [-1], axis=0)\<close>.\<close>

definition delete_extra_ray :: "'a list \<Rightarrow> 'a list" where
  "delete_extra_ray xs = (if length xs = 361 then butlast xs else xs)"

text \<open>
  \<^verbatim>\<open>np.argsort\<close>: the indices that sort the array ascending. Equal values keep their
  original order here; numpy's default sort keeps it for arrays of at most 16 entries only,
  so what is stated below of sorted arrays holds for every order of equal azimuths, or is
  stated of distinct azimuths.
\<close>

definition argsort :: "real list \<Rightarrow> nat list" where
  "argsort xs = sort_key (\<lambda>i. xs ! i) [0..<length xs]"

text \<open>\<^verbatim>\<open>a[idx]\<close> with an index array: every index must be in range.\<close>

definition take_idx :: "'a list \<Rightarrow> nat list \<Rightarrow> error + 'a list" where
  "take_idx xs idx =
     (if list_all (\<lambda>i. i < length xs) idx then Inr (map (\<lambda>i. xs ! i) idx) else Inl IndexError)"

text \<open>\<^verbatim>\<open>np.linspace(start, stop, num)\<close> with its end point.\<close>

definition linspace :: "real \<Rightarrow> real \<Rightarrow> nat \<Rightarrow> real list" where
  "linspace start stop num =
     (let dv = num - 1;
          delta = stop - start;
          y = (if 0 < dv then map (\<lambda>i. real i * (delta / real dv) + start) [0..<num]
               else map (\<lambda>i. real i * delta + start) [0..<num])
      in if 1 < num then y[num - 1 := stop] else y)"

text \<open>\<^verbatim>\<open>np.resize(a, new_size)\<close> of a one-dimensional array.\<close>

definition np_resize :: "real list \<Rightarrow> nat \<Rightarrow> real list" where
  "np_resize a n =
     (if a = [] then replicate n 0
      else take n (concat (replicate ((n + length a - 1) div length a) a)))"

text \<open>\<^verbatim>\<open>np.arange(start, stop, step)\<close> on non-negative integers.\<close>

definition np_arange :: "nat \<Rightarrow> nat \<Rightarrow> nat \<Rightarrow> error + nat list" where
  "np_arange start stop step =
     (if step = 0 then Inl ZeroDivisionError
      else Inr (map (\<lambda>i. start + i * step) [0..<(stop - start + step - 1) div step]))"

text \<open>
  \<^verbatim>\<open>a.astype(t)\<close>. A cast to an integer type truncates towards zero and keeps the low
  bits of the result, as the C cast does for the 8- and 16-bit types and, for every type,
  on the values \<open>in_range\<close> of the type (beyond them C leaves the cast of a wider type
  open). A cast to a floating type is the identity on the reals that stand for the floats:
  the rounding to a narrower floating type is not modelled.
\<close>

definition trunc :: "real \<Rightarrow> int" where
  "trunc x = (if 0 \<le> x then floor x else ceiling x)"

fun astype :: "dtype \<Rightarrow> real \<Rightarrow> real" where
  "astype DFloat x = x"
| "astype (DInt w) x = of_int (signed_take_bit (w - 1) (trunc x))"
| "astype (DUInt w) x = of_int (take_bit w (trunc x))"

fun in_range :: "dtype \<Rightarrow> real \<Rightarrow> bool" where
  "in_range DFloat x = True"
| "in_range (DInt w) x = (- (2 ^ (w - 1)) \<le> trunc x \<and> trunc x < 2 ^ (w - 1))"
| "in_range (DUInt w) x = (0 \<le> trunc x \<and> trunc x < 2 ^ w)"

definition astype_m :: "dtype \<Rightarrow> marray \<Rightarrow> marray" where
  "astype_m t a = map (map (\<lambda>g. (astype t (fst g), snd g))) a"

text \<open>\<^verbatim>\<open>np.round(a, 3)\<close>: to the nearest multiple of 1/1000, halves to even.\<close>

definition rint :: "real \<Rightarrow> int" where
  "rint x =
     (let f = floor x; d = x - of_int f
      in if d < 1 / 2 then f else if 1 / 2 < d then f + 1 else if even f then f else f + 1)"

definition np_round3 :: "real \<Rightarrow> real" where
  "np_round3 x = of_int (rint (x * 1000)) / 1000"

text \<open>
  \<^verbatim>\<open>np.ma.masked_where(r >= max_range, a)\<close>: the condition and the array must have the
  same shape; the new mask is the old one or the condition.
\<close>

definition masked_where_ge :: "real list list \<Rightarrow> real \<Rightarrow> marray \<Rightarrow> error + marray" where
  "masked_where_ge r max_range a =
     (if map length r = map length a
      then Inr (map2 (\<lambda>rr ar. map2 (\<lambda>d g. (fst g, snd g \<or> max_range \<le> d)) rr ar) r a)
      else Inl IndexError)"

text \<open>
  \<^verbatim>\<open>a.min()\<close> of a masked array: the least value that is not masked; None stands for
  numpy's \<^verbatim>\<open>masked\<close> constant, the result when every gate is masked. An array without
  any element raises.
\<close>

definition unmasked :: "marray \<Rightarrow> real list" where
  "unmasked a = map fst (filter (\<lambda>g. \<not> snd g) (concat a))"

definition ma_min :: "marray \<Rightarrow> error + real option" where
  "ma_min a =
     (if concat a = [] then Inl ValueError
      else if unmasked a = [] then Inr None
      else Inr (Some (min_list (unmasked a))))"

text \<open>\<^verbatim>\<open>np.ma.masked_equal(a, a.min())\<close>.\<close>

definition masked_equal_min :: "marray \<Rightarrow> error + marray" where
  "masked_equal_min a =
     (case ma_min a of
        Inl e \<Rightarrow> Inl e
      | Inr None \<Rightarrow> Inr a
      | Inr (Some m) \<Rightarrow> Inr (map (map (\<lambda>g. (fst g, snd g \<or> fst g = m))) a))"

subsection \<open>The azimuth and elevation grids (lines 31-76)\<close>

text \<open>Lines 33-52: the rays of one sweep, de-duplicated and sorted by azimuth.\<close>

definition sort_sweep ::
  "radar \<Rightarrow> nat \<Rightarrow> error + (real list \<times> real list \<times> real list \<times> nat list)" where
  "sort_sweep v s =
     (case get_slice v s of
        Inl e \<Rightarrow> Inl e
      | Inr sl \<Rightarrow>
          let azi = delete_extra_ray (slice sl (azimuth v));
              ele = delete_extra_ray (slice sl (elevation v));
              az_idx = argsort azi;
              az_sorted = map (\<lambda>i. azi ! i) az_idx
          in (case take_idx ele az_idx of
                Inl e \<Rightarrow> Inl e
              | Inr ele_sorted \<Rightarrow> Inr (azi, az_sorted, ele_sorted, az_idx)))"

text \<open>Lines 59-65, with \<open>n\<close> the ray count of the lowest sweep.\<close>

definition homogenize ::
  "nat \<Rightarrow> real list \<Rightarrow> real list \<Rightarrow> nat list \<Rightarrow> error + (real list \<times> real list \<times> nat list)" where
  "homogenize n az_sorted ele_sorted az_idx =
     (if length az_sorted \<noteq> n
      then (if az_sorted = [] then Inl IndexError
            else Inr (linspace (az_sorted ! 0) (last az_sorted) n, np_resize ele_sorted n, [0..<n]))
      else Inr (az_sorted, ele_sorted, az_idx))"

text \<open>
  The variables \<^verbatim>\<open>azimuth_final, az_final, ele_final, idx_final\<close>: unbound (None) until
  the lowest sweep has been seen. The stacked rows always have the length of
  \<^verbatim>\<open>azimuth_final\<close>, so \<^verbatim>\<open>np.concatenate\<close> cannot fail here.
\<close>

type_synonym grid = "real list \<times> real list list \<times> real list list \<times> nat list list"

definition grid_step :: "radar \<Rightarrow> nat \<Rightarrow> grid option \<Rightarrow> nat \<Rightarrow> error + grid option" where
  "grid_step v sweep_min st s =
     (case sort_sweep v s of
        Inl e \<Rightarrow> Inl e
      | Inr (azi, az_sorted, ele_sorted, az_idx) \<Rightarrow>
          (case (if s = sweep_min then Some azi else map_option fst st) of
             None \<Rightarrow> Inl UnboundLocalError
           | Some azimuth_final \<Rightarrow>
               (case homogenize (length azimuth_final) az_sorted ele_sorted az_idx of
                  Inl e \<Rightarrow> Inl e
                | Inr (az, el, ix) \<Rightarrow>
                    if s = sweep_min then Inr (Some (azimuth_final, [az], [el], [ix]))
                    else (case st of
                            None \<Rightarrow> Inl UnboundLocalError
                          | Some (_, az_final, ele_final, idx_final) \<Rightarrow>
                              Inr (Some (azimuth_final, az_final @ [az], ele_final @ [el],
                                         idx_final @ [ix]))))))"

fun grid_loop :: "radar \<Rightarrow> nat \<Rightarrow> grid option \<Rightarrow> nat list \<Rightarrow> error + grid option" where
  "grid_loop v sweep_min st [] = Inr st"
| "grid_loop v sweep_min st (s # ss) =
     (case grid_step v sweep_min st s of
        Inl e \<Rightarrow> Inl e
      | Inr st' \<Rightarrow> grid_loop v sweep_min st' ss)"

subsection \<open>Resampling the fields (lines 79-133)\<close>

text \<open>Lines 83-84: the distance of every gate of every ray of the sweep.\<close>

definition gate_r :: "extern \<Rightarrow> radar \<Rightarrow> nat \<times> nat \<Rightarrow> error + real list list" where
  "gate_r X v sl =
     (let az = slice sl (azimuth v); el = slice sl (elevation v)
      in if length az = length el
         then Inr (map2 (\<lambda>a e. map (\<lambda>rg. gate_distance X rg a e) (range_data v)) az el)
         else Inl ValueError)"

text \<open>
  \<^verbatim>\<open>np.delete(a, [-1], axis=0)\<close> of a masked array: numpy deletes in the data of the array
  and wraps the result as a masked array without mask, so the mask is lost.
\<close>

definition ma_delete_last :: "marray \<Rightarrow> error + marray" where
  "ma_delete_last a =
     (if a = [] then Inl IndexError else Inr (map (map (\<lambda>g. (fst g, False))) (butlast a)))"

text \<open>
  Lines 91-93: the range and field arrays lose their last ray when the field of the sweep
  has 361 rays.
\<close>

definition delete_extra_ray2 ::
  "real list list \<Rightarrow> marray \<Rightarrow> error + (real list list \<times> marray)" where
  "delete_extra_ray2 r fld =
     (if length fld = 361
      then (case np_delete_last r of
              Inl e \<Rightarrow> Inl e
            | Inr r1 \<Rightarrow>
                (case ma_delete_last fld of
                   Inl e \<Rightarrow> Inl e
                 | Inr fld1 \<Rightarrow> Inr (r1, fld1)))
      else Inr (r, fld))"

text \<open>
  Lines 83-116 for one sweep of one field: the range array, the unambiguous range of the
  sweep's first ray, and the field sorted by azimuth, the first and the last interpolated
  onto the sweep's azimuth grid when the ray count differs from the lowest sweep's. The
  interpolators see the data of the masked array, and return an array without mask;
  \<^verbatim>\<open>interp1d\<close> raises ValueError when its two arrays differ in length along the axis.
\<close>

definition resample ::
  "extern \<Rightarrow> radar \<Rightarrow> real list list \<Rightarrow> field \<Rightarrow> nat
     \<Rightarrow> error + (real list list \<times> real \<times> marray)" where
  "resample X v az_final f s =
     (case get_slice v s of
        Inl e \<Rightarrow> Inl e
      | Inr sl \<Rightarrow>
     (case gate_r X v sl of
        Inl e \<Rightarrow> Inl e
      | Inr r0 \<Rightarrow>
     (case delete_extra_ray2 r0 (slice sl (fdata f)) of
        Inl e \<Rightarrow> Inl e
      | Inr (r, fld) \<Rightarrow>
     (case slice sl (unambiguous_range v) of
        [] \<Rightarrow> Inl IndexError
      | max_range # _ \<Rightarrow>
          let azi = delete_extra_ray (slice sl (azimuth v));
              az_idx = argsort azi;
              azi_sorted = map (\<lambda>i. azi ! i) az_idx
          in
     (case take_idx fld az_idx of
        Inl e \<Rightarrow> Inl e
      | Inr field_sorted \<Rightarrow>
          if length fld \<noteq> length (hd az_final)
          then (if length azi_sorted \<noteq> length r then Inl ValueError
                else if s < length az_final
                then (case interp1d X azi_sorted r (az_final ! s) of
                        Inl e \<Rightarrow> Inl e
                      | Inr r' \<Rightarrow>
                     (case interp2d X (range_data v) azi_sorted (map (map fst) field_sorted)
                             (range_data v) (az_final ! s) of
                        Inl e \<Rightarrow> Inl e
                      | Inr field_interp \<Rightarrow>
                          Inr (r', max_range,
                               map (map (\<lambda>x. (np_round3 x, False))) field_interp)))
                else Inl IndexError)
          else Inr (r, max_range, field_sorted))))))"

text \<open>
  Lines 119-122: mask the gates at or beyond the unambiguous range, then the gates that
  hold the minimum of what is left.
\<close>

definition sweep_field ::
  "extern \<Rightarrow> radar \<Rightarrow> real list list \<Rightarrow> field \<Rightarrow> nat \<Rightarrow> error + marray" where
  "sweep_field X v az_final f s =
     (case resample X v az_final f s of
        Inl e \<Rightarrow> Inl e
      | Inr (r, max_range, field_sorted) \<Rightarrow>
          (case masked_where_ge r max_range field_sorted of
             Inl e \<Rightarrow> Inl e
           | Inr fm \<Rightarrow> masked_equal_min fm))"

text \<open>
  Lines 124-129: \<^verbatim>\<open>field_final\<close> is the list of the sweeps stacked so far, unbound (None)
  until the lowest sweep has been seen; \<^verbatim>\<open>np.ma.concatenate\<close> needs blocks of one shape.
\<close>

definition field_step ::
  "extern \<Rightarrow> radar \<Rightarrow> real list list \<Rightarrow> nat \<Rightarrow> field \<Rightarrow> marray list option \<Rightarrow> nat
     \<Rightarrow> error + marray list option" where
  "field_step X v az_final sweep_min f ff s =
     (case sweep_field X v az_final f s of
        Inl e \<Rightarrow> Inl e
      | Inr b \<Rightarrow>
          if s = sweep_min then Inr (Some [b])
          else (case ff of
                  None \<Rightarrow> Inl UnboundLocalError
                | Some field_final \<Rightarrow>
                    if map length b = map length (hd field_final)
                    then Inr (Some (field_final @ [b]))
                    else Inl ValueError))"

fun field_sweeps ::
  "extern \<Rightarrow> radar \<Rightarrow> real list list \<Rightarrow> nat \<Rightarrow> field \<Rightarrow> marray list option \<Rightarrow> nat list
     \<Rightarrow> error + marray list option" where
  "field_sweeps X v az_final sweep_min f ff [] = Inr ff"
| "field_sweeps X v az_final sweep_min f ff (s # ss) =
     (case field_step X v az_final sweep_min f ff s of
        Inl e \<Rightarrow> Inl e
      | Inr ff' \<Rightarrow> field_sweeps X v az_final sweep_min f ff' ss)"

text \<open>Lines 132-133: stack the sweeps, cast, and mask the minimum of the whole array.\<close>

definition assemble :: "dtype \<Rightarrow> marray list \<Rightarrow> error + marray" where
  "assemble t field_final = masked_equal_min (astype_m t (concat field_final))"

definition set_field_data :: "string \<Rightarrow> marray \<Rightarrow> radar \<Rightarrow> radar" where
  "set_field_data name d v =
     v\<lparr>fields_dict := map (\<lambda>(k, f). if k = name then (k, f\<lparr>fdata := d\<rparr>) else (k, f)) (fields_dict v)\<rparr>"

text \<open>
  The body of the loop over the fields (lines 81-133). The state is the radar object and
  the Python variables \<^verbatim>\<open>field_final\<close> and \<^verbatim>\<open>field_type\<close>, which outlive the iteration.
\<close>

type_synonym fstate = "radar \<times> marray list option \<times> dtype option"

definition field_body ::
  "extern \<Rightarrow> real list list \<Rightarrow> nat \<Rightarrow> fstate \<Rightarrow> string \<Rightarrow> (error \<times> radar) + fstate" where
  "field_body X az_final sweep_min st name =
     (case st of (v, ff, ft) \<Rightarrow>
     (case map_of (fields_dict v) name of
        None \<Rightarrow> Inl (KeyError, v)
      | Some f \<Rightarrow>
     (case field_sweeps X v az_final sweep_min f ff (sweep_number v) of
        Inl e \<Rightarrow> Inl (e, v)
      | Inr ff' \<Rightarrow>
          let ft' = (if sweep_number v = [] then ft else Some (fdtype f))
          in (case (ff', ft') of
                (Some field_final, Some field_type) \<Rightarrow>
                  (case assemble field_type field_final of
                     Inl e \<Rightarrow> Inl (e, v)
                   | Inr d \<Rightarrow> Inr (set_field_data name d v, ff', ft'))
              | _ \<Rightarrow> Inl (UnboundLocalError, v)))))"

fun field_loop ::
  "extern \<Rightarrow> real list list \<Rightarrow> nat \<Rightarrow> fstate \<Rightarrow> string list \<Rightarrow> (error \<times> radar) + fstate" where
  "field_loop X az_final sweep_min st [] = Inr st"
| "field_loop X az_final sweep_min st (name # names) =
     (case field_body X az_final sweep_min st name of
        Inl e \<Rightarrow> Inl e
      | Inr st' \<Rightarrow> field_loop X az_final sweep_min st' names)"

subsection \<open>main\<close>

text \<open>
  Lines 136-142. \<^verbatim>\<open>sweep_start_ray_index['data'][1] - 1\<close> is computed on the second start
  index, which is the stride and hence positive whenever \<^verbatim>\<open>np.arange\<close> has returned.
\<close>

definition finish :: "radar \<Rightarrow> dtype \<Rightarrow> real list list \<Rightarrow> real list list \<Rightarrow> (error \<times> radar) + radar" where
  "finish v field_type az_final ele_final =
     (let v1 = v\<lparr>azimuth := map (astype field_type) (concat az_final)\<rparr>;
          v2 = v1\<lparr>elevation := map (astype field_type) (concat ele_final)\<rparr>;
          v3 = v2\<lparr>nrays := length (azimuth v2)\<rparr>
      in (case np_arange 0 (length (azimuth v3)) (length (hd az_final)) of
            Inl e \<Rightarrow> Inl (e, v3)
          | Inr starts \<Rightarrow>
              let v4 = v3\<lparr>sweep_start_ray_index := starts\<rparr>
              in if length starts \<le> 1 then Inl (IndexError, v4)
                 else (case np_arange (starts ! 1 - 1) (length (azimuth v4)) (length (hd az_final)) of
                         Inl e \<Rightarrow> Inl (e, v4)
                       | Inr ends \<Rightarrow> Inr (v4\<lparr>sweep_end_ray_index := ends\<rparr>))))"

definition main :: "extern \<Rightarrow> radar \<Rightarrow> (error \<times> radar) + radar" where
  "main X radar =
     (if sweep_number radar = [] then Inl (ValueError, radar)
      else
        let sweep_min = min_list (sweep_number radar)
        in (case grid_loop radar sweep_min None (sweep_number radar) of
              Inl e \<Rightarrow> Inl (e, radar)
            | Inr None \<Rightarrow> Inl (UnboundLocalError, radar)
            | Inr (Some (azimuth_final, az_final, ele_final, idx_final)) \<Rightarrow>
                (case field_loop X az_final sweep_min (radar, None, None) (map fst (fields_dict radar)) of
                   Inl e \<Rightarrow> Inl e
                 | Inr (v, ff, None) \<Rightarrow> Inl (UnboundLocalError, v)
                 | Inr (v, ff, Some field_type) \<Rightarrow> finish v field_type az_final ele_final)))"

subsection \<open>Auxiliary notions\<close>

text \<open>
  Lines 33-65 for one sweep: its azimuth grid, its elevation grid and its index array,
  given the ray count \<open>n\<close> of the lowest sweep.
\<close>

definition sweep_grid ::
  "radar \<Rightarrow> nat \<Rightarrow> nat \<Rightarrow> error + (real list \<times> real list \<times> nat list)" where
  "sweep_grid v n s =
     (case sort_sweep v s of
        Inl e \<Rightarrow> Inl e
      | Inr (azi, az_sorted, ele_sorted, az_idx) \<Rightarrow> homogenize n az_sorted ele_sorted az_idx)"

text \<open>
  The reference ray count \<^verbatim>\<open>azimuth_final.shape[0]\<close> of lines 55-56: the number of rays of
  the lowest sweep once its extra ray is deleted.
\<close>

definition ref_ray_count :: "radar \<Rightarrow> nat" where
  "ref_ray_count v =
     (case get_slice v (min_list (sweep_number v)) of
        Inl e \<Rightarrow> 0
      | Inr sl \<Rightarrow> length (delete_extra_ray (slice sl (azimuth v))))"

text \<open>
  Lines 81-133 for one field \<open>f\<close> of the volume: the array that is stored as its data.
\<close>

definition field_result ::
  "extern \<Rightarrow> radar \<Rightarrow> real list list \<Rightarrow> nat \<Rightarrow> field \<Rightarrow> error + marray" where
  "field_result X v az_final sweep_min f =
     (case field_sweeps X v az_final sweep_min f None (sweep_number v) of
        Inl e \<Rightarrow> Inl e
      | Inr None \<Rightarrow> Inl UnboundLocalError
      | Inr (Some field_final) \<Rightarrow> assemble (fdtype f) field_final)"

text \<open>
  The rule of the specification, in its words: ``mask every gate whose value equals the
  minimum value present'' in the array, the values present in a masked array being those
  of its valid gates.
\<close>

definition spec_mask_minimum :: "marray \<Rightarrow> marray" where
  "spec_mask_minimum a =
     map (map (\<lambda>g. (fst g, snd g \<or> (fst g \<in> set (unmasked a)
                                      \<and> (\<forall>y\<in>set (unmasked a). fst g \<le> y))))) a"

text \<open>
  What scipy documents of the shape of the array that an \<^verbatim>\<open>interp2d\<close> interpolator returns:
  one row for every new \<open>y\<close>, one column for every new \<open>x\<close>.
\<close>

definition interp2d_shape :: "extern \<Rightarrow> bool" where
  "interp2d_shape X \<longleftrightarrow>
     (\<forall>x y z p q fi. interp2d X x y z p q = Inr fi \<longrightarrow>
        length fi = length q \<and> (\<forall>row\<in>set fi. length row = length p))"

subsection \<open>Example volumes\<close>

text \<open>
  Stand-ins for the library: the distance of a gate is its range, and the interpolators
  are never reached on a volume whose sweeps all have the ray count of the lowest one.
\<close>

definition X0 :: extern where
  "X0 = \<lparr>gate_distance = (\<lambda>rg a e. rg),
          interp1d = (\<lambda>x y q. Inl ValueError),
          interp2d = (\<lambda>x y z p q. Inl ValueError)\<rparr>"

text \<open>Two sweeps of two rays and three gates; the first sweep is stored by descending azimuth.\<close>

definition v0 :: radar where
  "v0 = \<lparr>sweep_number = [0, 1], sweep_start_ray_index = [0, 2], sweep_end_ray_index = [1, 3],
          azimuth = [10, 0, 0, 10], elevation = [1, 2, 3, 4], range_data = [1, 2, 3],
          unambiguous_range = [100, 100, 100, 100],
          fields_dict = [(''dbz'', \<lparr>fdtype = DFloat,
             fdata = [[(1, False), (2, False), (3, False)], [(4, False), (5, False), (6, False)],
                      [(1, False), (2, False), (3, False)], [(4, False), (5, False), (6, False)]]\<rparr>)],
          nrays = 4\<rparr>"

text \<open>The volume that \<open>main\<close> makes of \<open>v0\<close>, and the one it makes of that.\<close>

definition v1 :: radar where
  "v1 = \<lparr>sweep_number = [0, 1], sweep_start_ray_index = [0, 2], sweep_end_ray_index = [1, 3],
          azimuth = [0, 10, 0, 10], elevation = [2, 1, 3, 4], range_data = [1, 2, 3],
          unambiguous_range = [100, 100, 100, 100],
          fields_dict = [(''dbz'', \<lparr>fdtype = DFloat,
             fdata = [[(4, False), (5, False), (6, False)], [(1, True), (2, True), (3, False)],
                      [(1, True), (2, True), (3, False)], [(4, False), (5, False), (6, False)]]\<rparr>)],
          nrays = 4\<rparr>"

definition v2 :: radar where
  "v2 = \<lparr>sweep_number = [0, 1], sweep_start_ray_index = [0, 2], sweep_end_ray_index = [1, 3],
          azimuth = [0, 10, 0, 10], elevation = [2, 1, 3, 4], range_data = [1, 2, 3],
          unambiguous_range = [100, 100, 100, 100],
          fields_dict = [(''dbz'', \<lparr>fdtype = DFloat,
             fdata = [[(4, True), (5, False), (6, False)], [(1, True), (2, True), (3, True)],
                      [(1, True), (2, True), (3, True)], [(4, True), (5, False), (6, False)]]\<rparr>)],
          nrays = 4\<rparr>"

text \<open>A volume without sweeps, and a volume of one sweep.\<close>

definition v_empty :: radar where
  "v_empty = \<lparr>sweep_number = [], sweep_start_ray_index = [], sweep_end_ray_index = [],
          azimuth = [], elevation = [], range_data = [1, 2, 3], unambiguous_range = [],
          fields_dict = [(''dbz'', \<lparr>fdtype = DFloat, fdata = []\<rparr>)], nrays = 0\<rparr>"

definition v_single :: radar where
  "v_single = \<lparr>sweep_number = [0], sweep_start_ray_index = [0], sweep_end_ray_index = [1],
          azimuth = [10, 0], elevation = [1, 2], range_data = [1, 2, 3],
          unambiguous_range = [100, 100],
          fields_dict = [(''dbz'', \<lparr>fdtype = DFloat,
             fdata = [[(1, False), (2, False), (3, False)], [(4, False), (5, False), (6, False)]]\<rparr>)],
          nrays = 2\<rparr>"

text \<open>
  A volume whose second sweep has two rays where the lowest sweep has three: only the
  grids of lines 31-76 are of interest here.
\<close>

definition v_ragged :: radar where
  "v_ragged = \<lparr>sweep_number = [0, 1], sweep_start_ray_index = [0, 3],
          sweep_end_ray_index = [2, 4],
          azimuth = [20, 0, 10, 30, 10], elevation = [1, 2, 3, 4, 5], range_data = [1, 2, 3],
          unambiguous_range = [100, 100, 100, 100, 100],
          fields_dict = [], nrays = 5\<rparr>"



text \<open>
  The volume \<open>v0\<close> with angles that are not whole numbers and a second field, stored as
  16-bit integers.
\<close>

definition v_int :: radar where
  "v_int = \<lparr>sweep_number = [0, 1], sweep_start_ray_index = [0, 2], sweep_end_ray_index = [1, 3],
          azimuth = [21 / 2, 1 / 4, 3 / 4, 21 / 2], elevation = [3 / 2, 5 / 2, - 1 / 2, 9 / 2],
          range_data = [1, 2, 3], unambiguous_range = [100, 100, 100, 100],
          fields_dict = [(''dbz'', \<lparr>fdtype = DFloat,
             fdata = [[(1, False), (2, False), (3, False)], [(4, False), (5, False), (6, False)],
                      [(1, False), (2, False), (3, False)], [(4, False), (5, False), (6, False)]]\<rparr>),
            (''raw'', \<lparr>fdtype = DInt 16,
             fdata = [[(7, False), (8, False), (9, False)], [(4, False), (5, False), (6, False)],
                      [(1, False), (2, False), (3, False)], [(4, False), (5, False), (6, False)]]\<rparr>)],
          nrays = 4\<rparr>"

text \<open>The volume \<open>v0\<close> with the unambiguous range 3, the range of its last gate.\<close>

definition v_range :: radar where
  "v_range = \<lparr>sweep_number = [0, 1], sweep_start_ray_index = [0, 2],
          sweep_end_ray_index = [1, 3],
          azimuth = [10, 0, 0, 10], elevation = [1, 2, 3, 4], range_data = [1, 2, 3],
          unambiguous_range = [3, 3, 3, 3],
          fields_dict = [(''dbz'', \<lparr>fdtype = DFloat,
             fdata = [[(1, False), (2, False), (3, False)], [(4, False), (5, False), (6, False)],
                      [(1, False), (2, False), (3, False)], [(4, False), (5, False), (6, False)]]\<rparr>)],
          nrays = 4\<rparr>"


section \<open>Properties of the numpy primitives\<close>

lemma length_argsort: "length (argsort xs) = length xs"
  by (simp add: argsort_def)

lemma set_argsort: "set (argsort xs) = {0..<length xs}"
  by (simp add: argsort_def)

lemma sorted_argsort: "sorted (map (\<lambda>i. xs ! i) (argsort xs))"
  by (simp add: argsort_def)




lemma take_idx_argsort_err:
  "length ys < length xs \<Longrightarrow> take_idx ys (argsort xs) = Inl IndexError"
  by (auto simp: take_idx_def list_all_iff set_argsort)

lemma take_idx_length: "take_idx ys idx = Inr zs \<Longrightarrow> length zs = length idx"
  by (auto simp: take_idx_def split: if_splits)

lemma linspace_length: "length (linspace a b n) = n"
  by (simp add: linspace_def Let_def)

lemma linspace_nth:
  assumes "i < n"
  shows "linspace a b n ! i = a + real i * ((b - a) / real (n - 1))"
proof (cases "1 < n")
  case True
  show ?thesis
  proof (cases "i = n - 1")
    case True
    with \<open>1 < n\<close> show ?thesis by (simp add: linspace_def Let_def)
  next
    case False
    with True assms show ?thesis by (simp add: linspace_def Let_def)
  qed
next
  case False
  with assms have "n = 1" "i = 0" by auto
  then show ?thesis by (simp add: linspace_def Let_def)
qed

lemma linspace_sorted:
  assumes "a \<le> b"
  shows "sorted (linspace a b n)"
proof -
  have "linspace a b n ! i \<le> linspace a b n ! j" if "i \<le> j" "j < n" for i j
  proof -
    have "0 \<le> (b - a) / real (n - 1)" using assms by simp
    then have "real i * ((b - a) / real (n - 1)) \<le> real j * ((b - a) / real (n - 1))"
      using that by (intro mult_right_mono) auto
    then show ?thesis using that by (simp add: linspace_nth)
  qed
  then show ?thesis by (simp add: sorted_iff_nth_mono linspace_length)
qed

lemma np_resize_length: "length (np_resize a n) = n"
proof (cases "a = []")
  case True
  then show ?thesis by (simp add: np_resize_def)
next
  case False
  then have pos: "0 < length a" by simp
  have "n \<le> ((n + length a - 1) div length a) * length a"
  proof -
    have "n + length a - 1 < ((n + length a - 1) div length a) * length a + length a"
      using pos by (metis add.commute dividend_less_div_times mult.commute)
    then show ?thesis by linarith
  qed
  then show ?thesis using False
    by (simp add: np_resize_def length_concat sum_list_replicate)
qed

text \<open>\<^verbatim>\<open>np.resize\<close> repeats its argument cyclically.\<close>

lemma concat_replicate_nth:
  assumes "a \<noteq> []" "i < m * length a"
  shows "concat (replicate m a) ! i = a ! (i mod length a)"
  using assms
proof (induction m arbitrary: i)
  case 0
  then show ?case by simp
next
  case (Suc m)
  show ?case
  proof (cases "i < length a")
    case True
    then show ?thesis by (simp add: nth_append)
  next
    case False
    then have "i - length a < m * length a" using Suc.prems by simp
    then have "concat (replicate m a) ! (i - length a) = a ! ((i - length a) mod length a)"
      using Suc.IH Suc.prems(1) by blast
    moreover have "(i - length a) mod length a = i mod length a"
      using False by (simp add: le_mod_geq)
    ultimately show ?thesis using False by (simp add: nth_append)
  qed
qed

lemma np_resize_nth:
  assumes "a \<noteq> []" "i < n"
  shows "np_resize a n ! i = a ! (i mod length a)"
proof -
  have pos: "0 < length a" using assms by simp
  have "n + length a - 1 < ((n + length a - 1) div length a) * length a + length a"
    using pos by (metis add.commute dividend_less_div_times)
  then have "i < ((n + length a - 1) div length a) * length a" using assms by linarith
  then show ?thesis using assms by (simp add: np_resize_def concat_replicate_nth)
qed

lemma np_arange_starts:
  "0 < k \<Longrightarrow> np_arange 0 (n * k) k = Inr (map (\<lambda>i. i * k) [0..<n])"
proof -
  assume k: "0 < k"
  have "(n * k + k - 1) div k = n"
  proof (rule div_nat_eqI)
    show "k * n \<le> n * k + k - 1" using k by (simp add: mult.commute)
    show "n * k + k - 1 < k * Suc n" using k by (simp add: mult.commute)
  qed
  then show ?thesis using k by (simp add: np_arange_def)
qed

lemma np_arange_ends:
  "0 < k \<Longrightarrow> 0 < n \<Longrightarrow> np_arange (k - 1) (n * k) k = Inr (map (\<lambda>i. (i + 1) * k - 1) [0..<n])"
proof -
  assume k: "0 < k" and n: "0 < n"
  have "k \<le> n * k" using n by simp
  then have "n * k - (k - 1) + k - 1 = n * k" using k by arith
  then have "(n * k - (k - 1) + k - 1) div k = n" using k by simp
  moreover have "k - 1 + i * k = (i + 1) * k - 1" for i using k by simp
  ultimately show ?thesis using k by (simp add: np_arange_def)
qed

lemma trunc_mono: "x \<le> y \<Longrightarrow> trunc x \<le> trunc y"
proof -
  assume le: "x \<le> y"
  consider "0 \<le> x" | "x < 0" "y < 0" | "x < 0" "0 \<le> y" by linarith
  then show ?thesis
  proof cases
    case 1
    then show ?thesis using le by (simp add: trunc_def floor_mono)
  next
    case 2
    then show ?thesis using le by (simp add: trunc_def ceiling_mono)
  next
    case 3
    have a: "ceiling x \<le> 0" using 3 by (simp add: ceiling_le_zero)
    have b: "0 \<le> floor y" using 3 by simp
    have "trunc x = ceiling x" "trunc y = floor y" using 3 by (simp_all add: trunc_def)
    then show ?thesis using a b by linarith
  qed
qed

lemma trunc_of_int: "trunc (of_int z) = z"
  by (simp add: trunc_def)

lemma astype_in_range:
  "in_range t x \<Longrightarrow> astype t x = (if t = DFloat then x else of_int (trunc x))"
  by (cases t) (simp_all add: signed_take_bit_int_eq_self take_bit_int_eq_self)

lemma astype_mono:
  "in_range t x \<Longrightarrow> in_range t y \<Longrightarrow> x \<le> y \<Longrightarrow> astype t x \<le> astype t y"
  by (simp add: astype_in_range trunc_mono)

lemma astype_idem: "astype t (astype t x) = astype t x"
  by (cases t) (simp_all add: trunc_of_int)

lemma sorted_map_astype:
  "sorted xs \<Longrightarrow> \<forall>x\<in>set xs. in_range t x \<Longrightarrow> sorted (map (astype t) xs)"
  by (simp add: sorted_iff_nth_mono astype_mono)

section \<open>The grid loop\<close>

lemma sort_sweep_Inr:
  assumes "sort_sweep v s = Inr (azi, azs, els, idx)"
  obtains sl where "get_slice v s = Inr sl"
    "azi = delete_extra_ray (slice sl (azimuth v))"
    "idx = argsort azi" "azs = map (\<lambda>i. azi ! i) idx"
    "take_idx (delete_extra_ray (slice sl (elevation v))) idx = Inr els"
proof (cases "get_slice v s")
  case (Inl e)
  with assms show ?thesis by (simp add: sort_sweep_def)
next
  case (Inr sl)
  show ?thesis
  proof (cases "take_idx (delete_extra_ray (slice sl (elevation v)))
                  (argsort (delete_extra_ray (slice sl (azimuth v))))")
    case (Inl e)
    with Inr assms show ?thesis by (simp add: sort_sweep_def Let_def)
  next
    case r: (Inr es)
    with Inr assms have "azi = delete_extra_ray (slice sl (azimuth v))" "idx = argsort azi"
      "azs = map (\<lambda>i. azi ! i) idx" "es = els"
      by (auto simp: sort_sweep_def Let_def)
    with Inr r that show ?thesis by blast
  qed
qed

lemma sort_sweep_props:
  assumes "sort_sweep v s = Inr (azi, azs, els, idx)"
  shows "length azs = length azi" "sorted azs" "length els = length azi"
    "idx = argsort azi" "azs = map (\<lambda>i. azi ! i) idx"
proof -
  from assms obtain sl where *: "idx = argsort azi" "azs = map (\<lambda>i. azi ! i) idx"
    "take_idx (delete_extra_ray (slice sl (elevation v))) idx = Inr els"
    by (rule sort_sweep_Inr)
  show "length azs = length azi" using * by (simp add: length_argsort)
  show "sorted azs" using * by (simp add: sorted_argsort)
  show "length els = length azi" using * take_idx_length[OF *(3)] by (simp add: length_argsort)
  show "idx = argsort azi" by fact
  show "azs = map (\<lambda>i. azi ! i) idx" by fact
qed

lemma homogenize_same:
  "length azs = n \<Longrightarrow> homogenize n azs els idx = Inr (azs, els, idx)"
  by (simp add: homogenize_def)

lemma homogenize_length:
  "homogenize n azs els idx = Inr (a, e, i) \<Longrightarrow> length els = length azs
     \<Longrightarrow> length a = n \<and> length e = n"
  by (auto simp: homogenize_def linspace_length np_resize_length split: if_splits)

lemma sorted_nth0_le_last: "sorted xs \<Longrightarrow> xs \<noteq> [] \<Longrightarrow> xs ! 0 \<le> last xs"
  by (simp add: last_conv_nth sorted_iff_nth_mono)

lemma homogenize_sorted:
  "homogenize n azs els idx = Inr (a, e, i) \<Longrightarrow> sorted azs \<Longrightarrow> sorted a"
  by (auto simp: homogenize_def linspace_sorted sorted_nth0_le_last split: if_splits)

lemma finish_single: "\<exists>e s. finish v t [row] E = Inl (e, s)"
proof (cases "row = []")
  case True
  then show ?thesis by (simp add: finish_def np_arange_def)
next
  case False
  then have "0 < length row" by simp
  then have "np_arange 0 (1 * length row) (length row) = Inr (map (\<lambda>i. i * length row) [0..<1])"
    by (rule np_arange_starts)
  then show ?thesis by (simp add: finish_def)
qed

lemma grid_step_min:
  assumes "grid_step v m st m = Inr st'"
  shows "\<exists>azi azs els idx. sort_sweep v m = Inr (azi, azs, els, idx)
           \<and> st' = Some (azi, [azs], [els], [idx])"
proof (cases "sort_sweep v m")
  case (Inl e)
  with assms show ?thesis by (simp add: grid_step_def)
next
  case (Inr q)
  obtain azi azs els idx where q: "q = (azi, azs, els, idx)" by (cases q) auto
  from Inr q have ss: "sort_sweep v m = Inr (azi, azs, els, idx)" by simp
  then have "length azs = length azi" by (rule sort_sweep_props(1))
  then have "homogenize (length azi) azs els idx = Inr (azs, els, idx)"
    by (simp add: homogenize_same)
  with assms ss show ?thesis by (simp add: grid_step_def)
qed

lemma grid_loop_single:
  assumes "grid_loop v m st [m] = Inr st'"
  shows "\<exists>azi azs els idx. st' = Some (azi, [azs], [els], [idx]) \<and> length azs = length azi"
proof -
  from assms have "grid_step v m st m = Inr st'" by (simp split: sum.splits)
  then obtain azi azs els idx where ss: "sort_sweep v m = Inr (azi, azs, els, idx)"
      and st': "st' = Some (azi, [azs], [els], [idx])"
    using grid_step_min by meson
  have "length azs = length azi" using ss by (rule sort_sweep_props(1))
  with st' show ?thesis by simp
qed

lemma finish_single_IndexError:
  "row \<noteq> [] \<Longrightarrow> \<exists>s. finish v t [row] E = Inl (IndexError, s)
      \<and> azimuth s = map (astype t) row \<and> sweep_start_ray_index s = [0]"
proof -
  assume "row \<noteq> []"
  then have "0 < length row" by simp
  then have "np_arange 0 (1 * length row) (length row) = Inr (map (\<lambda>i. i * length row) [0..<1])"
    by (rule np_arange_starts)
  then show ?thesis by (simp add: finish_def)
qed

section \<open>The example volumes\<close>

lemma main_v0: "main X0 v0 = Inr v1"
  by code_simp

lemma main_v1: "main X0 v1 = Inr v2"
  by code_simp

lemma grid_step_other:
  assumes "grid_step v m (Some (af, A, E, I)) s = Inr st'" "s \<noteq> m"
  shows "\<exists>azi azs els idx a e i. sort_sweep v s = Inr (azi, azs, els, idx)
           \<and> homogenize (length af) azs els idx = Inr (a, e, i)
           \<and> st' = Some (af, A @ [a], E @ [e], I @ [i])"
proof (cases "sort_sweep v s")
  case (Inl e)
  with assms show ?thesis by (simp add: grid_step_def)
next
  case (Inr q)
  obtain azi azs els idx where q: "q = (azi, azs, els, idx)" by (cases q) auto
  from Inr q have ss: "sort_sweep v s = Inr (azi, azs, els, idx)" by simp
  show ?thesis
  proof (cases "homogenize (length af) azs els idx")
    case (Inl e)
    with assms ss show ?thesis by (simp add: grid_step_def)
  next
    case h: (Inr p)
    obtain a e i where p: "p = (a, e, i)" by (cases p) auto
    from h p have hh: "homogenize (length af) azs els idx = Inr (a, e, i)" by simp
    with assms ss have "st' = Some (af, A @ [a], E @ [e], I @ [i])"
      by (simp add: grid_step_def)
    with ss hh show ?thesis by blast
  qed
qed

lemma grid_step_None_other:
  "s \<noteq> m \<Longrightarrow> \<exists>e. grid_step v m None s = Inl e"
  by (cases "sort_sweep v s") (auto simp: grid_step_def)

text \<open>Lines 33-65 for one sweep, given the ray count \<open>k\<close> of the lowest sweep.\<close>

lemma homogenize_props:
  assumes "homogenize k azs els idx = Inr (a, e, i)" "length els = length azs" "sorted azs"
  shows "length a = k" "length e = k" "sorted a"
  using assms homogenize_length homogenize_sorted by blast+

lemma sweep_grid_props:
  assumes "sweep_grid v k s = Inr (a, e, i)"
  shows "length a = k" "length e = k" "sorted a"
proof -
  from assms obtain q where q: "sort_sweep v s = Inr q"
    by (cases "sort_sweep v s") (auto simp: sweep_grid_def)
  obtain azi azs els idx where qq: "q = (azi, azs, els, idx)" by (cases q) auto
  from q qq have ss: "sort_sweep v s = Inr (azi, azs, els, idx)" by simp
  with assms have h: "homogenize k azs els idx = Inr (a, e, i)" by (simp add: sweep_grid_def)
  have l: "length els = length azs" using sort_sweep_props(1,3)[OF ss] by simp
  have so: "sorted azs" using ss by (rule sort_sweep_props(2))
  show "length a = k" using h l so by (rule homogenize_props(1))
  show "length e = k" using h l so by (rule homogenize_props(2))
  show "sorted a" using h l so by (rule homogenize_props(3))
qed

lemma grid_step_other_grid:
  assumes "grid_step v m (Some (af, A, E, I)) s = Inr st'" "s \<noteq> m"
  shows "\<exists>row. sweep_grid v (length af) s = Inr row
           \<and> st' = Some (af, A @ [fst row], E @ [fst (snd row)], I @ [snd (snd row)])"
proof -
  from grid_step_other[OF assms] obtain azi azs els idx a e i where
    ss: "sort_sweep v s = Inr (azi, azs, els, idx)"
    and h: "homogenize (length af) azs els idx = Inr (a, e, i)"
    and st: "st' = Some (af, A @ [a], E @ [e], I @ [i])" by (elim exE conjE)
  from ss h have "sweep_grid v (length af) s = Inr (a, e, i)" by (simp add: sweep_grid_def)
  with st show ?thesis by simp
qed

lemma grid_loop_rows:
  assumes "grid_loop v m (Some (af, A, E, I)) ss = Inr st'" "m \<notin> set ss"
  shows "\<exists>rows. list_all2 (\<lambda>s row. sweep_grid v (length af) s = Inr row) ss rows
           \<and> st' = Some (af, A @ map fst rows, E @ map (\<lambda>r. fst (snd r)) rows,
                         I @ map (\<lambda>r. snd (snd r)) rows)"
  using assms
proof (induction ss arbitrary: A E I)
  case Nil
  then show ?case by simp
next
  case (Cons s ss)
  from Cons.prems(1) obtain st1 where
    s1: "grid_step v m (Some (af, A, E, I)) s = Inr st1"
    and l1: "grid_loop v m st1 ss = Inr st'"
    by (cases "grid_step v m (Some (af, A, E, I)) s") auto
  have ne: "s \<noteq> m" using Cons.prems(2) by auto
  from grid_step_other_grid[OF s1 ne] obtain row where
    row: "sweep_grid v (length af) s = Inr row"
    and st1: "st1 = Some (af, A @ [fst row], E @ [fst (snd row)], I @ [snd (snd row)])"
    by (elim exE conjE)
  have "m \<notin> set ss" using Cons.prems(2) by simp
  from Cons.IH[OF l1[unfolded st1] this] obtain rows where
    rows: "list_all2 (\<lambda>s row. sweep_grid v (length af) s = Inr row) ss rows"
    and st': "st' = Some (af, (A @ [fst row]) @ map fst rows,
        (E @ [fst (snd row)]) @ map (\<lambda>r. fst (snd r)) rows,
        (I @ [snd (snd row)]) @ map (\<lambda>r. snd (snd r)) rows)"
    by (elim exE conjE)
  have a: "list_all2 (\<lambda>s row. sweep_grid v (length af) s = Inr row) (s # ss) (row # rows)"
    using row rows by simp
  have b: "st' = Some (af, A @ map fst (row # rows),
      E @ map (\<lambda>r. fst (snd r)) (row # rows), I @ map (\<lambda>r. snd (snd r)) (row # rows))"
    using st' by simp
  show ?case by (rule exI[of _ "row # rows"], rule conjI, rule a, rule b)
qed

lemma grid_loop_char:
  assumes "grid_loop v m None (m # ss) = Inr st" "m \<notin> set ss"
  shows "\<exists>af azs els idx rows. sort_sweep v m = Inr (af, azs, els, idx)
           \<and> list_all2 (\<lambda>s row. sweep_grid v (length af) s = Inr row) (m # ss) rows
           \<and> st = Some (af, map fst rows, map (\<lambda>r. fst (snd r)) rows,
                        map (\<lambda>r. snd (snd r)) rows)"
proof -
  from assms(1) obtain st1 where
    s1: "grid_step v m None m = Inr st1" and l1: "grid_loop v m st1 ss = Inr st"
    by (cases "grid_step v m None m") auto
  from grid_step_min[OF s1] obtain af azs els idx where
    ss: "sort_sweep v m = Inr (af, azs, els, idx)"
    and st1: "st1 = Some (af, [azs], [els], [idx])" by (elim exE conjE)
  have "length azs = length af" using ss by (rule sort_sweep_props(1))
  then have "homogenize (length af) azs els idx = Inr (azs, els, idx)"
    by (simp add: homogenize_same)
  with ss have g0: "sweep_grid v (length af) m = Inr (azs, els, idx)"
    by (simp add: sweep_grid_def)
  from grid_loop_rows[OF l1[unfolded st1] assms(2)] obtain rows where
    rows: "list_all2 (\<lambda>s row. sweep_grid v (length af) s = Inr row) ss rows"
    and st: "st = Some (af, [azs] @ map fst rows, [els] @ map (\<lambda>r. fst (snd r)) rows,
                        [idx] @ map (\<lambda>r. snd (snd r)) rows)" by (elim exE conjE)
  have a: "list_all2 (\<lambda>s row. sweep_grid v (length af) s = Inr row) (m # ss) ((azs, els, idx) # rows)"
    using g0 rows by simp
  have b: "st = Some (af, map fst ((azs, els, idx) # rows),
      map (\<lambda>r. fst (snd r)) ((azs, els, idx) # rows),
      map (\<lambda>r. snd (snd r)) ((azs, els, idx) # rows))"
    using st by simp
  show ?thesis
    by (rule exI[of _ af], rule exI[of _ azs], rule exI[of _ els], rule exI[of _ idx],
        rule exI[of _ "(azs, els, idx) # rows"], rule conjI, rule ss, rule conjI, rule a, rule b)
qed

lemma min_list_upt: "0 < n \<Longrightarrow> min_list [0..<n] = 0"
proof -
  assume n: "0 < n"
  then have "[0..<n] \<noteq> []" by simp
  then have "min_list [0..<n] = Min (set [0..<n])" by (rule min_list_Min)
  also have "\<dots> = 0" using n by (intro Min_eqI) auto
  finally show ?thesis .
qed

lemma ref_ray_count_sort_sweep:
  "sort_sweep v (min_list (sweep_number v)) = Inr (af, azs, els, idx)
     \<Longrightarrow> ref_ray_count v = length af"
  by (erule sort_sweep_Inr) (simp add: ref_ray_count_def)

lemma length_concat_const:
  "\<forall>row\<in>set A. length row = k \<Longrightarrow> length (concat A) = length A * k"
  by (induction A) auto

lemma resample_Inr:
  assumes "resample X v azf f s = Inr (r, mr, fs)"
  obtains sl r0 r1 fld fsorted where
    "get_slice v s = Inr sl" "gate_r X v sl = Inr r0"
    "delete_extra_ray2 r0 (slice sl (fdata f)) = Inr (r1, fld)"
    "slice sl (unambiguous_range v) \<noteq> []" "mr = hd (slice sl (unambiguous_range v))"
    "take_idx fld (argsort (delete_extra_ray (slice sl (azimuth v)))) = Inr fsorted"
    "length fld = length (hd azf) \<longrightarrow> r = r1 \<and> fs = fsorted"
    "length fld \<noteq> length (hd azf) \<longrightarrow>
       length (argsort (delete_extra_ray (slice sl (azimuth v)))) = length r1
     \<and> s < length azf
     \<and> interp1d X (map (\<lambda>i. delete_extra_ray (slice sl (azimuth v)) ! i)
                      (argsort (delete_extra_ray (slice sl (azimuth v))))) r1 (azf ! s) = Inr r
     \<and> (\<exists>fi. interp2d X (range_data v)
                 (map (\<lambda>i. delete_extra_ray (slice sl (azimuth v)) ! i)
                      (argsort (delete_extra_ray (slice sl (azimuth v)))))
                 (map (map fst) fsorted) (range_data v) (azf ! s) = Inr fi
             \<and> fs = map (map (\<lambda>x. (np_round3 x, False))) fi)"
proof (cases "get_slice v s")
  case (Inl e)
  with assms show ?thesis by (simp add: resample_def)
next
  case sl: (Inr sl)
  show ?thesis
  proof (cases "gate_r X v sl")
    case (Inl e)
    with assms sl show ?thesis by (simp add: resample_def)
  next
    case r0: (Inr r0)
    show ?thesis
    proof (cases "delete_extra_ray2 r0 (slice sl (fdata f))")
      case (Inl e)
      with assms sl r0 show ?thesis by (simp add: resample_def)
    next
      case (Inr p)
      obtain r1 fld where p: "p = (r1, fld)" by (cases p) auto
      with Inr have d: "delete_extra_ray2 r0 (slice sl (fdata f)) = Inr (r1, fld)" by simp
      show ?thesis
      proof (cases "slice sl (unambiguous_range v)")
        case Nil
        with assms sl r0 d show ?thesis by (simp add: resample_def)
      next
        case (Cons m ms)
        show ?thesis
        proof (cases "take_idx fld (argsort (delete_extra_ray (slice sl (azimuth v))))")
          case (Inl e)
          with assms sl r0 d Cons show ?thesis by (simp add: resample_def Let_def)
        next
          case fsr: (Inr fsorted)
          have mr: "mr = hd (slice sl (unambiguous_range v))"
            using assms sl r0 d Cons fsr
            by (auto simp: resample_def Let_def split: if_splits sum.splits)
          have same: "length fld = length (hd azf) \<longrightarrow> r = r1 \<and> fs = fsorted"
          proof
            assume "length fld = length (hd azf)"
            then show "r = r1 \<and> fs = fsorted"
              using assms sl r0 d Cons fsr by (simp add: resample_def Let_def)
          qed
          have diff: "length fld \<noteq> length (hd azf) \<longrightarrow>
               length (argsort (delete_extra_ray (slice sl (azimuth v)))) = length r1
             \<and> s < length azf
             \<and> interp1d X (map (\<lambda>i. delete_extra_ray (slice sl (azimuth v)) ! i)
                      (argsort (delete_extra_ray (slice sl (azimuth v))))) r1 (azf ! s) = Inr r
             \<and> (\<exists>fi. interp2d X (range_data v)
                 (map (\<lambda>i. delete_extra_ray (slice sl (azimuth v)) ! i)
                      (argsort (delete_extra_ray (slice sl (azimuth v)))))
                 (map (map fst) fsorted) (range_data v) (azf ! s) = Inr fi
                \<and> fs = map (map (\<lambda>x. (np_round3 x, False))) fi)"
          proof
            assume "length fld \<noteq> length (hd azf)"
            then show "length (argsort (delete_extra_ray (slice sl (azimuth v)))) = length r1
             \<and> s < length azf
             \<and> interp1d X (map (\<lambda>i. delete_extra_ray (slice sl (azimuth v)) ! i)
                      (argsort (delete_extra_ray (slice sl (azimuth v))))) r1 (azf ! s) = Inr r
             \<and> (\<exists>fi. interp2d X (range_data v)
                 (map (\<lambda>i. delete_extra_ray (slice sl (azimuth v)) ! i)
                      (argsort (delete_extra_ray (slice sl (azimuth v)))))
                 (map (map fst) fsorted) (range_data v) (azf ! s) = Inr fi
                \<and> fs = map (map (\<lambda>x. (np_round3 x, False))) fi)"
              using assms sl r0 d Cons fsr
              by (simp add: resample_def Let_def split: if_splits sum.splits)
          qed
          have ne: "slice sl (unambiguous_range v) \<noteq> []" using Cons by simp
          show ?thesis using that[OF sl r0 d ne mr fsr same diff] .
        qed
      qed
    qed
  qed
qed

lemma homogenize_diff:
  assumes "homogenize n azs els idx = Inr (a, e, i)" "length azs \<noteq> n"
  shows "azs \<noteq> []" "a = linspace (azs ! 0) (last azs) n" "e = np_resize els n" "i = [0..<n]"
  using assms by (auto simp: homogenize_def split: if_splits)

lemma linspace_last: "1 < n \<Longrightarrow> last (linspace a b n) = b"
proof -
  assume n: "1 < n"
  have l: "length (linspace a b n) = n" by (rule linspace_length)
  then have ne: "linspace a b n \<noteq> []" using n by auto
  have "last (linspace a b n) = linspace a b n ! (n - 1)"
    using l ne by (simp add: last_conv_nth)
  also have "\<dots> = a + real (n - 1) * ((b - a) / real (n - 1))"
    using n by (intro linspace_nth) simp
  also have "\<dots> = b" using n by simp
  finally show ?thesis .
qed

lemma grid_loop_row:
  assumes "grid_loop v m None (m # ss) = Inr (Some (af, A, E, I))" "m \<notin> set ss"
    "j < length (m # ss)" "sort_sweep v ((m # ss) ! j) = Inr (azi, azs, els, idx)"
  shows "homogenize (length af) azs els idx = Inr (A ! j, E ! j, I ! j)"
    "length A = length (m # ss)" "length E = length (m # ss)"
proof -
  from grid_loop_char[OF assms(1,2)] obtain af' azs' els' idx' rows where
    rows: "list_all2 (\<lambda>s row. sweep_grid v (length af') s = Inr row) (m # ss) rows"
    and st: "Some (af, A, E, I) = Some (af', map fst rows, map (\<lambda>r. fst (snd r)) rows,
                        map (\<lambda>r. snd (snd r)) rows)"
    by (elim exE conjE)
  from st have eq: "af' = af" "A = map fst rows" "E = map (\<lambda>r. fst (snd r)) rows"
    "I = map (\<lambda>r. snd (snd r)) rows" by simp_all
  have len: "length rows = length (m # ss)" using list_all2_lengthD[OF rows] by simp
  have "sweep_grid v (length af) ((m # ss) ! j) = Inr (rows ! j)"
    using rows assms(3) eq(1) by (simp add: list_all2_conv_all_nth)
  then have "homogenize (length af) azs els idx = Inr (rows ! j)"
    using assms(4) by (simp add: sweep_grid_def)
  moreover have "rows ! j = (A ! j, E ! j, I ! j)" using eq len assms(3) by simp
  ultimately show "homogenize (length af) azs els idx = Inr (A ! j, E ! j, I ! j)" by simp
  show "length A = length (m # ss)" using eq len by simp
  show "length E = length (m # ss)" using eq len by simp
qed

lemma main_Inr:
  assumes "main X v = Inr v'"
  obtains af A E I vf ff t where
    "sweep_number v \<noteq> []"
    "grid_loop v (min_list (sweep_number v)) None (sweep_number v) = Inr (Some (af, A, E, I))"
    "field_loop X A (min_list (sweep_number v)) (v, None, None) (map fst (fields_dict v))
       = Inr (vf, ff, Some t)"
    "finish vf t A E = Inr v'"
proof -
  have ne: "sweep_number v \<noteq> []" using assms by (auto simp: main_def)
  let ?m = "min_list (sweep_number v)"
  show ?thesis
  proof (cases "grid_loop v ?m None (sweep_number v)")
    case (Inl e)
    with assms ne show ?thesis by (simp add: main_def)
  next
    case (Inr g)
    show ?thesis
    proof (cases g)
      case None
      with assms ne Inr show ?thesis by (simp add: main_def)
    next
      case (Some q)
      obtain af A E I where q: "q = (af, A, E, I)" by (cases q) auto
      have g: "grid_loop v ?m None (sweep_number v) = Inr (Some (af, A, E, I))"
        using Inr Some q by simp
      show ?thesis
      proof (cases "field_loop X A ?m (v, None, None) (map fst (fields_dict v))")
        case (Inl e)
        with assms ne g show ?thesis by (simp add: main_def)
      next
        case fl: (Inr st)
        obtain vf ff ft where st: "st = (vf, ff, ft)" by (cases st) auto
        show ?thesis
        proof (cases ft)
          case None
          with assms ne g fl st show ?thesis by (simp add: main_def)
        next
          case (Some t)
          have f1: "field_loop X A ?m (v, None, None) (map fst (fields_dict v))
                      = Inr (vf, ff, Some t)" using fl st Some by simp
          have f2: "finish vf t A E = Inr v'" using assms ne g f1 by (simp add: main_def)
          show ?thesis using that[OF ne g f1 f2] .
        qed
      qed
    qed
  qed
qed

lemma grid_loop_first:
  assumes "grid_loop v m None (s # ss) = Inr st"
  shows "s = m"
proof (rule ccontr)
  assume "s \<noteq> m"
  then obtain e where "grid_step v m None s = Inl e" using grid_step_None_other by meson
  with assms show False by simp
qed

lemma finish_Inr:
  assumes "finish vf t A E = Inr v'" "A \<noteq> []" "\<forall>row\<in>set A. length row = k"
  shows "0 < k" "2 \<le> length A"
    "azimuth v' = map (astype t) (concat A)"
    "elevation v' = map (astype t) (concat E)"
    "nrays v' = length A * k"
    "sweep_start_ray_index v' = map (\<lambda>i. i * k) [0..<length A]"
    "sweep_end_ray_index v' = map (\<lambda>i. (i + 1) * k - 1) [0..<length A]"
    "fields_dict v' = fields_dict vf" "sweep_number v' = sweep_number vf"
    "range_data v' = range_data vf" "unambiguous_range v' = unambiguous_range vf"
proof -
  have hd: "length (hd A) = k" using assms(2,3) by (cases A) auto
  have lc: "length (concat A) = length A * k" using assms(3) by (rule length_concat_const)
  show k: "0 < k"
  proof (rule ccontr)
    assume "\<not> 0 < k"
    then have "k = 0" by simp
    with assms(1) hd show False by (simp add: finish_def np_arange_def)
  qed
  have st: "np_arange 0 (length A * k) k = Inr (map (\<lambda>i. i * k) [0..<length A])"
    using k by (rule np_arange_starts)
  show n: "2 \<le> length A"
  proof (rule ccontr)
    assume "\<not> 2 \<le> length A"
    then have "length A \<le> 1" by simp
    with assms(1) hd lc st show False by (simp add: finish_def)
  qed
  have "map (\<lambda>i. i * k) [0..<length A] ! 1 = [0..<length A] ! 1 * k"
    by (rule nth_map) (use n in simp)
  also have "[0..<length A] ! 1 = 0 + 1" by (rule nth_upt) (use n in simp)
  finally have s1: "map (\<lambda>i. i * k) [0..<length A] ! 1 = k" by simp
  have n0: "0 < length A" using assms(2) by simp
  have en: "np_arange (k - 1) (length A * k) k = Inr (map (\<lambda>i. (i + 1) * k - 1) [0..<length A])"
    using k n0 by (rule np_arange_ends)
  have nle: "\<not> length A \<le> 1" using n by simp
  have v': "v' = vf\<lparr>azimuth := map (astype t) (concat A),
                    elevation := map (astype t) (concat E),
                    nrays := length A * k,
                    sweep_start_ray_index := map (\<lambda>i. i * k) [0..<length A],
                    sweep_end_ray_index := map (\<lambda>i. (i + 1) * k - 1) [0..<length A]\<rparr>"
    using assms(1) hd lc st s1 en nle by (simp add: finish_def)
  show "azimuth v' = map (astype t) (concat A)" by (simp add: v')
  show "elevation v' = map (astype t) (concat E)" by (simp add: v')
  show "nrays v' = length A * k" by (simp add: v')
  show "sweep_start_ray_index v' = map (\<lambda>i. i * k) [0..<length A]" by (simp add: v')
  show "sweep_end_ray_index v' = map (\<lambda>i. (i + 1) * k - 1) [0..<length A]" by (simp add: v')
  show "fields_dict v' = fields_dict vf" by (simp add: v')
  show "sweep_number v' = sweep_number vf" by (simp add: v')
  show "range_data v' = range_data vf" by (simp add: v')
  show "unambiguous_range v' = unambiguous_range vf" by (simp add: v')
qed

text \<open>The grid of a run over distinct sweep numbers, the lowest first.\<close>

lemma grid_loop_distinct:
  assumes "grid_loop v (min_list (sweep_number v)) None (sweep_number v) = Inr (Some (af, A, E, I))"
    "distinct (sweep_number v)" "sweep_number v \<noteq> []"
  shows "length af = ref_ray_count v" "length A = length (sweep_number v)"
    "length E = length (sweep_number v)"
    "\<forall>row\<in>set A. length row = ref_ray_count v \<and> sorted row"
    "\<forall>row\<in>set E. length row = ref_ray_count v"
proof -
  define m where "m = min_list (sweep_number v)"
  have g0: "grid_loop v m None (sweep_number v) = Inr (Some (af, A, E, I))"
    using assms(1) by (simp add: m_def)
  obtain s ss where sn: "sweep_number v = s # ss" using assms(3) by (cases "sweep_number v") auto
  have sm: "s = m" using grid_loop_first[of v m s ss] g0 sn by simp
  have nin: "m \<notin> set ss" using assms(2) sn sm by auto
  have g: "grid_loop v m None (m # ss) = Inr (Some (af, A, E, I))" using g0 sn sm by simp
  from grid_loop_char[OF g nin] obtain af' azs els idx rows where
    ss: "sort_sweep v m = Inr (af', azs, els, idx)"
    and rows: "list_all2 (\<lambda>s row. sweep_grid v (length af') s = Inr row) (m # ss) rows"
    and st: "Some (af, A, E, I) = Some (af', map fst rows, map (\<lambda>r. fst (snd r)) rows,
                        map (\<lambda>r. snd (snd r)) rows)"
    by (elim exE conjE)
  from st have eq: "af' = af" "A = map fst rows" "E = map (\<lambda>r. fst (snd r)) rows" by simp_all
  show k: "length af = ref_ray_count v" using ref_ray_count_sort_sweep[OF ss[unfolded m_def]] eq by simp
  have len: "length rows = length (sweep_number v)"
    using list_all2_lengthD[OF rows] sn sm by simp
  show "length A = length (sweep_number v)" using eq len by simp
  show "length E = length (sweep_number v)" using eq len by simp
  have each: "length (fst row) = length af \<and> sorted (fst row) \<and> length (fst (snd row)) = length af"
    if "row \<in> set rows" for row
  proof -
    from that obtain j where j: "j < length rows" "rows ! j = row" by (auto simp: in_set_conv_nth)
    have "sweep_grid v (length af) ((m # ss) ! j) = Inr (rows ! j)"
      using rows j(1) eq(1) by (simp add: list_all2_conv_all_nth)
    then have "sweep_grid v (length af) ((m # ss) ! j) = Inr (fst row, fst (snd row), snd (snd row))"
      using j(2) by simp
    from sweep_grid_props[OF this] show ?thesis by simp
  qed
  show "\<forall>row\<in>set A. length row = ref_ray_count v \<and> sorted row"
    using each eq k by auto
  show "\<forall>row\<in>set E. length row = ref_ray_count v"
    using each eq k by auto
qed






lemma delete_extra_ray2_Inr:
  assumes "delete_extra_ray2 r fld = Inr (r1, fld1)"
  shows "length fld = 361 \<longrightarrow> r \<noteq> [] \<and> r1 = butlast r
           \<and> fld1 = map (map (\<lambda>g. (fst g, False))) (take 360 fld)"
    "length fld \<noteq> 361 \<longrightarrow> r1 = r \<and> fld1 = fld"
  using assms
  by (auto simp: delete_extra_ray2_def np_delete_last_def ma_delete_last_def butlast_conv_take
      split: if_splits)

lemma masked_where_ge_Inr:
  "masked_where_ge r mr a = Inr fm \<Longrightarrow> map length r = map length a"
  by (auto simp: masked_where_ge_def split: if_splits)

lemma sweep_field_Inr:
  assumes "sweep_field X v azf f s = Inr b"
  obtains r mr fs fm where "resample X v azf f s = Inr (r, mr, fs)"
    "masked_where_ge r mr fs = Inr fm" "masked_equal_min fm = Inr b"
proof (cases "resample X v azf f s")
  case (Inl e)
  with assms show ?thesis by (simp add: sweep_field_def)
next
  case (Inr q)
  obtain r mr fs where q: "q = (r, mr, fs)" by (cases q) auto
  with Inr have rs: "resample X v azf f s = Inr (r, mr, fs)" by simp
  show ?thesis
  proof (cases "masked_where_ge r mr fs")
    case (Inl e)
    with assms rs show ?thesis by (simp add: sweep_field_def)
  next
    case fm: (Inr fm)
    have "masked_equal_min fm = Inr b" using assms rs fm by (simp add: sweep_field_def)
    then show ?thesis using that[OF rs fm] by simp
  qed
qed


lemma map_length_const:
  "\<forall>row\<in>set xs. length row = k \<Longrightarrow> map length xs = replicate (length xs) k"
  by (induction xs) auto

lemma gate_r_rows:
  "gate_r X v sl = Inr r0 \<Longrightarrow> \<forall>row\<in>set r0. length row = length (range_data v)"
  by (auto simp: gate_r_def Let_def split: if_splits dest!: set_zip_leftD)


lemma masked_where_ge_shape:
  "masked_where_ge r mr a = Inr fm \<Longrightarrow> map length fm = map length a"
proof -
  assume h: "masked_where_ge r mr a = Inr fm"
  then have sh: "map length r = map length a" by (rule masked_where_ge_Inr)
  have fm: "fm = map2 (\<lambda>rr ar. map2 (\<lambda>d g. (fst g, snd g \<or> mr \<le> d)) rr ar) r a"
    using h sh by (simp add: masked_where_ge_def)
  have len: "length r = length a" using sh map_eq_imp_length_eq by blast
  show ?thesis
  proof (rule nth_equalityI)
    show "length (map length fm) = length (map length a)" using fm len by simp
    fix i assume "i < length (map length fm)"
    then have i: "i < length a" "i < length r" using fm len by simp_all
    have "length (r ! i) = length (a ! i)"
      using sh i by (metis length_map nth_map)
    then show "map length fm ! i = map length a ! i" using fm i by simp
  qed
qed







lemma finish_ok:
  assumes "2 \<le> length A" "\<forall>row\<in>set A. length row = k" "0 < k"
  shows "finish vf t A E
           = Inr (vf\<lparr>azimuth := map (astype t) (concat A),
                      elevation := map (astype t) (concat E),
                      nrays := length A * k,
                      sweep_start_ray_index := map (\<lambda>i. i * k) [0..<length A],
                      sweep_end_ray_index := map (\<lambda>i. (i + 1) * k - 1) [0..<length A]\<rparr>)"
proof -
  have ne: "A \<noteq> []" using assms(1) by auto
  have hd: "length (hd A) = k" using ne assms(2) by (cases A) auto
  have lc: "length (concat A) = length A * k" using assms(2) by (rule length_concat_const)
  have st: "np_arange 0 (length A * k) k = Inr (map (\<lambda>i. i * k) [0..<length A])"
    using assms(3) by (rule np_arange_starts)
  have "map (\<lambda>i. i * k) [0..<length A] ! 1 = [0..<length A] ! 1 * k"
    by (rule nth_map) (use assms(1) in simp)
  also have "[0..<length A] ! 1 = 0 + 1" by (rule nth_upt) (use assms(1) in simp)
  finally have s1: "map (\<lambda>i. i * k) [0..<length A] ! 1 = k" by simp
  have n0: "0 < length A" using ne by simp
  have en: "np_arange (k - 1) (length A * k) k = Inr (map (\<lambda>i. (i + 1) * k - 1) [0..<length A])"
    using assms(3) n0 by (rule np_arange_ends)
  have nle: "\<not> length A \<le> 1" using assms(1) by simp
  show ?thesis using hd lc st s1 en nle by (simp add: finish_def)
qed

section \<open>The loop over the fields\<close>

text \<open>The sweeps of a field are read in the radar object, never in its fields.\<close>

lemma get_slice_fields [simp]: "get_slice (v\<lparr>fields_dict := fd\<rparr>) s = get_slice v s"
  by (simp add: get_slice_def)

lemma gate_r_fields [simp]: "gate_r X (v\<lparr>fields_dict := fd\<rparr>) sl = gate_r X v sl"
  by (simp add: gate_r_def Let_def)

lemma resample_fields [simp]:
  "resample X (v\<lparr>fields_dict := fd\<rparr>) azf f s = resample X v azf f s"
  by (simp add: resample_def Let_def cong: sum.case_cong list.case_cong prod.case_cong if_cong)

lemma sweep_field_fields [simp]:
  "sweep_field X (v\<lparr>fields_dict := fd\<rparr>) azf f s = sweep_field X v azf f s"
  by (simp add: sweep_field_def cong: sum.case_cong)

lemma field_step_fields [simp]:
  "field_step X (v\<lparr>fields_dict := fd\<rparr>) azf m f ff s = field_step X v azf m f ff s"
  by (simp add: field_step_def cong: sum.case_cong)

lemma field_sweeps_fields [simp]:
  "field_sweeps X (v\<lparr>fields_dict := fd\<rparr>) azf m f ff ss = field_sweeps X v azf m f ff ss"
  by (induction ss arbitrary: ff) (simp_all split: sum.splits)

text \<open>The lowest sweep starts the stack anew, whatever the stack of the field before.\<close>

lemma field_step_min: "field_step X v azf m f ff m = field_step X v azf m f None m"
  by (simp add: field_step_def split: sum.splits)

lemma field_sweeps_min:
  "field_sweeps X v azf m f ff (m # ss) = field_sweeps X v azf m f None (m # ss)"
  by (simp add: field_step_min[of X v azf m f ff])

lemma map_of_update_data:
  "map_of (map (\<lambda>(k, g). if k = name then (k, h g) else (k, g)) fd) k'
     = (if k' = name then map_option h (map_of fd k') else map_of fd k')"
  by (induction fd) auto

lemma map_fst_update_data:
  "map fst (map (\<lambda>(k, g). if k = name then (k, h g) else (k, g)) fd) = map fst fd"
  by (induction fd) auto

lemma field_body_Inr:
  assumes "field_body X azf m (v\<lparr>fields_dict := fd\<rparr>, ff, ft) name = Inr (w', ff', ft')"
    and "sweep_number v = m # ss"
  shows "\<exists>f d. map_of fd name = Some f \<and> field_result X v azf m f = Inr d
           \<and> w' = v\<lparr>fields_dict := map (\<lambda>(k, g). if k = name then (k, g\<lparr>fdata := d\<rparr>) else (k, g)) fd\<rparr>
           \<and> ft' = Some (fdtype f)"
proof (cases "map_of fd name")
  case None
  with assms(1) show ?thesis by (simp add: field_body_def)
next
  case (Some f)
  have ne: "sweep_number v \<noteq> []" using assms(2) by simp
  have fs: "field_sweeps X v azf m f ff (sweep_number v)
              = field_sweeps X v azf m f None (sweep_number v)"
    unfolding assms(2) by (rule field_sweeps_min)
  note b = assms(1)[unfolded field_body_def]
  show ?thesis
  proof (cases "field_sweeps X v azf m f None (sweep_number v)")
    case (Inl e)
    with b Some fs ne show ?thesis by simp
  next
    case (Inr o1)
    show ?thesis
    proof (cases o1)
      case None
      with b Some fs Inr ne show ?thesis by simp
    next
      case F: (Some F)
      show ?thesis
      proof (cases "assemble (fdtype f) F")
        case (Inl e)
        with b Some fs Inr F ne show ?thesis by simp
      next
        case d: (Inr d)
        have r: "field_result X v azf m f = Inr d" using Inr F d by (simp add: field_result_def)
        have "w' = v\<lparr>fields_dict := map (\<lambda>(k, g). if k = name then (k, g\<lparr>fdata := d\<rparr>) else (k, g)) fd\<rparr>
               \<and> ft' = Some (fdtype f)"
          using b Some fs Inr F d ne by (auto simp: set_field_data_def)
        with Some r show ?thesis by simp
      qed
    qed
  qed
qed

text \<open>
  The loop over the fields, on a volume whose lowest sweep comes first: every field named
  in the loop gets the array of \<open>field_result\<close> for the field as it was, the other fields
  and the rest of the radar object stay, and \<^verbatim>\<open>field_type\<close> is the type of the field named
  last.
\<close>

lemma field_loop_Inr:
  assumes "field_loop X azf m (v\<lparr>fields_dict := fd\<rparr>, ff, ft) names = Inr (vf, ff', ft')"
    and "sweep_number v = m # ss" and "distinct names"
  shows "\<exists>fd'. vf = v\<lparr>fields_dict := fd'\<rparr> \<and> map fst fd' = map fst fd
           \<and> (\<forall>k. k \<notin> set names \<longrightarrow> map_of fd' k = map_of fd k)
           \<and> (\<forall>k\<in>set names. \<exists>f d. map_of fd k = Some f \<and> field_result X v azf m f = Inr d
                   \<and> map_of fd' k = Some (f\<lparr>fdata := d\<rparr>))
           \<and> (names = [] \<longrightarrow> ft' = ft)
           \<and> (names \<noteq> [] \<longrightarrow> (\<exists>f. map_of fd (last names) = Some f \<and> ft' = Some (fdtype f)))"
  using assms(1,3)
proof (induction names arbitrary: fd ff ft)
  case Nil
  then show ?case by auto
next
  case (Cons name names)
  let ?w = "v\<lparr>fields_dict := fd\<rparr>"
  from Cons.prems(1) obtain st1 where
    b: "field_body X azf m (?w, ff, ft) name = Inr st1"
    and l: "field_loop X azf m st1 names = Inr (vf, ff', ft')"
    by (cases "field_body X azf m (?w, ff, ft) name") auto
  obtain w1 ff1 ft1 where st1: "st1 = (w1, ff1, ft1)" by (cases st1) auto
  from field_body_Inr[OF b[unfolded st1] assms(2)] obtain f d where
    f: "map_of fd name = Some f" and d: "field_result X v azf m f = Inr d"
    and w1: "w1 = v\<lparr>fields_dict := map (\<lambda>(k, g). if k = name then (k, g\<lparr>fdata := d\<rparr>) else (k, g)) fd\<rparr>"
    and ft1: "ft1 = Some (fdtype f)"
    by (elim exE conjE)
  let ?fd1 = "map (\<lambda>(k, g). if k = name then (k, g\<lparr>fdata := d\<rparr>) else (k, g)) fd"
  have mo: "map_of ?fd1 k = (if k = name then map_option (\<lambda>g. g\<lparr>fdata := d\<rparr>) (map_of fd k)
                             else map_of fd k)" for k
    by (rule map_of_update_data)
  have mf: "map fst ?fd1 = map fst fd" by (rule map_fst_update_data)
  have dn: "distinct names" and nn: "name \<notin> set names" using Cons.prems(2) by simp_all
  from Cons.IH[OF l[unfolded st1 w1] dn] obtain fd' where
    vf: "vf = v\<lparr>fields_dict := fd'\<rparr>" and m1: "map fst fd' = map fst ?fd1"
    and o1: "\<forall>k. k \<notin> set names \<longrightarrow> map_of fd' k = map_of ?fd1 k"
    and p1: "\<forall>k\<in>set names. \<exists>f d. map_of ?fd1 k = Some f \<and> field_result X v azf m f = Inr d
                   \<and> map_of fd' k = Some (f\<lparr>fdata := d\<rparr>)"
    and e1: "names = [] \<longrightarrow> ft' = ft1"
    and l1: "names \<noteq> [] \<longrightarrow> (\<exists>f. map_of ?fd1 (last names) = Some f \<and> ft' = Some (fdtype f))"
    by (elim exE conjE)
  have c1: "map fst fd' = map fst fd" using m1 mf by simp
  have c2: "\<forall>k. k \<notin> set (name # names) \<longrightarrow> map_of fd' k = map_of fd k"
    using o1 mo by simp
  have c3: "\<forall>k\<in>set (name # names). \<exists>f d. map_of fd k = Some f
              \<and> field_result X v azf m f = Inr d \<and> map_of fd' k = Some (f\<lparr>fdata := d\<rparr>)"
  proof
    fix k assume k: "k \<in> set (name # names)"
    show "\<exists>f d. map_of fd k = Some f \<and> field_result X v azf m f = Inr d
              \<and> map_of fd' k = Some (f\<lparr>fdata := d\<rparr>)"
    proof (cases "k = name")
      case True
      then have "map_of fd' k = Some (f\<lparr>fdata := d\<rparr>)" using o1 nn mo f by simp
      with True f d show ?thesis by simp
    next
      case False
      with k have "k \<in> set names" by simp
      with p1 obtain f2 d2 where "map_of ?fd1 k = Some f2" "field_result X v azf m f2 = Inr d2"
        "map_of fd' k = Some (f2\<lparr>fdata := d2\<rparr>)" by blast
      with False mo show ?thesis by simp
    qed
  qed
  have c4: "\<exists>f. map_of fd (last (name # names)) = Some f \<and> ft' = Some (fdtype f)"
  proof (cases "names = []")
    case True
    with e1 ft1 f show ?thesis by simp
  next
    case False
    with l1 obtain f2 where f2: "map_of ?fd1 (last names) = Some f2" "ft' = Some (fdtype f2)"
      by blast
    have "last names \<noteq> name" using False nn last_in_set by metis
    with f2 mo have "map_of fd (last names) = Some f2" by simp
    with f2 False show ?thesis by simp
  qed
  show ?case
    by (rule exI[of _ fd']) (use vf c1 c2 c3 c4 in simp)
qed

section \<open>A run of main that returns\<close>

lemma finish_keeps:
  assumes "finish vf t A E = Inr v'"
  shows "azimuth v' = map (astype t) (concat A)" "elevation v' = map (astype t) (concat E)"
    "fields_dict v' = fields_dict vf" "sweep_number v' = sweep_number vf"
    "range_data v' = range_data vf" "unambiguous_range v' = unambiguous_range vf"
  using assms by (auto simp: finish_def Let_def split: sum.splits if_splits)

lemma main_char:
  assumes "main X v = Inr v'" and "distinct (map fst (fields_dict v))"
  obtains af A E I where
    "grid_loop v (min_list (sweep_number v)) None (sweep_number v) = Inr (Some (af, A, E, I))"
    "fields_dict v \<noteq> []"
    "azimuth v' = map (astype (fdtype (snd (last (fields_dict v))))) (concat A)"
    "elevation v' = map (astype (fdtype (snd (last (fields_dict v))))) (concat E)"
    "map fst (fields_dict v') = map fst (fields_dict v)"
    "\<forall>(name, f)\<in>set (fields_dict v). \<exists>d. field_result X v A (min_list (sweep_number v)) f = Inr d
         \<and> map_of (fields_dict v') name = Some (f\<lparr>fdata := d\<rparr>)"
    "sweep_number v' = sweep_number v" "range_data v' = range_data v"
    "unambiguous_range v' = unambiguous_range v"
proof -
  let ?m = "min_list (sweep_number v)"
  let ?fd = "fields_dict v"
  from assms(1) obtain af A E I vf ff t where ne: "sweep_number v \<noteq> []"
    and g: "grid_loop v ?m None (sweep_number v) = Inr (Some (af, A, E, I))"
    and fl: "field_loop X A ?m (v, None, None) (map fst ?fd) = Inr (vf, ff, Some t)"
    and fin: "finish vf t A E = Inr v'"
    by (rule main_Inr)
  obtain s ss where sn: "sweep_number v = s # ss" using ne by (cases "sweep_number v") auto
  have "s = ?m" using grid_loop_first[of v ?m s ss] g sn by simp
  then have sn': "sweep_number v = ?m # ss" using sn by simp
  have fl': "field_loop X A ?m (v\<lparr>fields_dict := ?fd\<rparr>, None, None) (map fst ?fd)
               = Inr (vf, ff, Some t)" using fl by simp
  from field_loop_Inr[OF fl' sn' assms(2)]
  obtain fd' where vf: "vf = v\<lparr>fields_dict := fd'\<rparr>" and mf: "map fst fd' = map fst ?fd"
    and each: "\<forall>k\<in>set (map fst ?fd). \<exists>f d. map_of ?fd k = Some f
                   \<and> field_result X v A ?m f = Inr d \<and> map_of fd' k = Some (f\<lparr>fdata := d\<rparr>)"
    and e: "map fst ?fd = [] \<longrightarrow> Some t = (None :: dtype option)"
    and l: "map fst ?fd \<noteq> [] \<longrightarrow>
              (\<exists>f. map_of ?fd (last (map fst ?fd)) = Some f \<and> Some t = Some (fdtype f))"
    by auto
  have fne: "?fd \<noteq> []" using e by auto
  then have "(fst (last ?fd), snd (last ?fd)) \<in> set ?fd" by simp
  then have "map_of ?fd (fst (last ?fd)) = Some (snd (last ?fd))"
    using assms(2) by (simp only: map_of_eq_Some_iff)
  moreover have "last (map fst ?fd) = fst (last ?fd)" using fne by (simp add: last_map)
  ultimately have t: "t = fdtype (snd (last ?fd))" using l fne by auto
  note f = finish_keeps[OF fin]
  have each': "\<forall>(name, f)\<in>set ?fd. \<exists>d. field_result X v A ?m f = Inr d
         \<and> map_of (fields_dict v') name = Some (f\<lparr>fdata := d\<rparr>)"
  proof (clarify)
    fix name f0 assume in_fd: "(name, f0) \<in> set ?fd"
    then have "name \<in> set (map fst ?fd)" by force
    with each obtain f1 d where f1: "map_of ?fd name = Some f1"
      "field_result X v A ?m f1 = Inr d" "map_of fd' name = Some (f1\<lparr>fdata := d\<rparr>)" by blast
    have "map_of ?fd name = Some f0" using in_fd assms(2) by (simp only: map_of_eq_Some_iff)
    with f1 have "f1 = f0" by simp
    with f1 f(3) vf show "\<exists>d. field_result X v A ?m f0 = Inr d
         \<and> map_of (fields_dict v') name = Some (f0\<lparr>fdata := d\<rparr>)" by simp
  qed
  show ?thesis
  proof (rule that[OF g fne _ _ _ each'])
    show "azimuth v' = map (astype (fdtype (snd (last ?fd)))) (concat A)" using f(1) t by simp
    show "elevation v' = map (astype (fdtype (snd (last ?fd)))) (concat E)" using f(2) t by simp
    show "map fst (fields_dict v') = map fst ?fd" using f(3) vf mf by simp
    show "sweep_number v' = sweep_number v" using f(4) vf by simp
    show "range_data v' = range_data v" using f(5) vf by simp
    show "unambiguous_range v' = unambiguous_range v" using f(6) vf by simp
  qed
qed

lemma field_step_other:
  assumes "field_step X v azf m f (Some F) s = Inr st" "s \<noteq> m"
  shows "\<exists>b. sweep_field X v azf f s = Inr b \<and> map length b = map length (hd F)
           \<and> st = Some (F @ [b])"
proof (cases "sweep_field X v azf f s")
  case (Inl e)
  with assms show ?thesis by (simp add: field_step_def)
next
  case (Inr b)
  with assms show ?thesis by (simp add: field_step_def split: if_splits)
qed

lemma field_step_first:
  assumes "field_step X v azf m f ff m = Inr st"
  shows "\<exists>b. sweep_field X v azf f m = Inr b \<and> st = Some [b]"
proof (cases "sweep_field X v azf f m")
  case (Inl e)
  with assms show ?thesis by (simp add: field_step_def)
next
  case (Inr b)
  with assms show ?thesis by (simp add: field_step_def)
qed

lemma field_sweeps_rows:
  assumes "field_sweeps X v azf m f (Some F) ss = Inr st" "m \<notin> set ss" "F \<noteq> []"
  shows "\<exists>bs. list_all2 (\<lambda>s b. sweep_field X v azf f s = Inr b
                   \<and> map length b = map length (hd F)) ss bs
           \<and> st = Some (F @ bs)"
  using assms
proof (induction ss arbitrary: F)
  case Nil
  then show ?case by simp
next
  case (Cons s ss)
  from Cons.prems(1) obtain st1 where
    s1: "field_step X v azf m f (Some F) s = Inr st1"
    and l1: "field_sweeps X v azf m f st1 ss = Inr st"
    by (cases "field_step X v azf m f (Some F) s") auto
  have ne: "s \<noteq> m" using Cons.prems(2) by auto
  from field_step_other[OF s1 ne] obtain b where
    b: "sweep_field X v azf f s = Inr b" and sh: "map length b = map length (hd F)"
    and st1: "st1 = Some (F @ [b])" by (elim exE conjE)
  have nin: "m \<notin> set ss" using Cons.prems(2) by simp
  have ne2: "F @ [b] \<noteq> []" by simp
  from Cons.IH[OF l1[unfolded st1] nin ne2] obtain bs where
    bs: "list_all2 (\<lambda>s b'. sweep_field X v azf f s = Inr b'
                   \<and> map length b' = map length (hd (F @ [b]))) ss bs"
    and st: "st = Some ((F @ [b]) @ bs)" by (elim exE conjE)
  have hdF: "hd (F @ [b]) = hd F" using Cons.prems(3) by simp
  have a: "list_all2 (\<lambda>s b. sweep_field X v azf f s = Inr b
                   \<and> map length b = map length (hd F)) (s # ss) (b # bs)"
    using b sh bs hdF by simp
  have c: "st = Some (F @ b # bs)" using st by simp
  show ?case by (rule exI[of _ "b # bs"], rule conjI, rule a, rule c)
qed

text \<open>
  The stack of one field, on a volume whose lowest sweep comes first and once: one block
  for every sweep, in the order of the sweeps, all of the shape of the first.
\<close>

lemma field_sweeps_char:
  assumes "field_sweeps X v azf m f ff (m # ss) = Inr st" "m \<notin> set ss"
  shows "\<exists>F. st = Some F \<and> F \<noteq> []
           \<and> list_all2 (\<lambda>s b. sweep_field X v azf f s = Inr b
                   \<and> map length b = map length (hd F)) (m # ss) F"
proof -
  from assms(1) obtain st1 where
    s1: "field_step X v azf m f ff m = Inr st1"
    and l1: "field_sweeps X v azf m f st1 ss = Inr st"
    by (cases "field_step X v azf m f ff m") auto
  from field_step_first[OF s1] obtain b where
    b: "sweep_field X v azf f m = Inr b" and st1: "st1 = Some [b]" by (elim exE conjE)
  have ne: "[b] \<noteq> []" by simp
  from field_sweeps_rows[OF l1[unfolded st1] assms(2) ne] obtain bs where
    bs: "list_all2 (\<lambda>s b'. sweep_field X v azf f s = Inr b'
                   \<and> map length b' = map length (hd [b])) ss bs"
    and st: "st = Some ([b] @ bs)" by (elim exE conjE)
  have a: "list_all2 (\<lambda>s b'. sweep_field X v azf f s = Inr b'
                   \<and> map length b' = map length (hd (b # bs))) (m # ss) (b # bs)"
    using b bs by simp
  show ?thesis
    by (rule exI[of _ "b # bs"]) (use st a in simp)
qed

lemma field_result_Inr:
  assumes "field_result X v azf m f = Inr d" "sweep_number v = m # ss" "m \<notin> set ss"
  shows "\<exists>F. F \<noteq> []
           \<and> list_all2 (\<lambda>s b. sweep_field X v azf f s = Inr b
                   \<and> map length b = map length (hd F)) (sweep_number v) F
           \<and> masked_equal_min (astype_m (fdtype f) (concat F)) = Inr d"
proof (cases "field_sweeps X v azf m f None (m # ss)")
  case (Inl e)
  with assms(1,2) show ?thesis by (simp add: field_result_def)
next
  case (Inr st)
  from field_sweeps_char[OF Inr assms(3)] obtain F where st: "st = Some F" and ne: "F \<noteq> []"
    and a: "list_all2 (\<lambda>s b. sweep_field X v azf f s = Inr b
                   \<and> map length b = map length (hd F)) (m # ss) F" by (elim exE conjE)
  have "field_result X v azf m f = assemble (fdtype f) F"
    unfolding field_result_def assms(2) Inr st by simp
  then have "masked_equal_min (astype_m (fdtype f) (concat F)) = Inr d"
    using assms(1) by (simp add: assemble_def)
  then show ?thesis using ne a assms(2) by auto
qed

section \<open>Masking the minimum\<close>

lemma masked_equal_min_spec:
  assumes "masked_equal_min a = Inr b"
  shows "b = spec_mask_minimum a" "concat a \<noteq> []"
proof -
  show ne: "concat a \<noteq> []" using assms
    by (auto simp: masked_equal_min_def ma_min_def split: if_splits)
  have mm: "ma_min a = Inr (if unmasked a = [] then None else Some (min_list (unmasked a)))"
    using ne by (simp add: ma_min_def del: concat_eq_Nil_conv)
  show "b = spec_mask_minimum a"
  proof (cases "unmasked a = []")
    case True
    then have "b = a" using assms mm by (simp add: masked_equal_min_def)
    moreover have "spec_mask_minimum a = a" using True
      by (simp add: spec_mask_minimum_def map_idI)
    ultimately show ?thesis by simp
  next
    case False
    let ?m = "min_list (unmasked a)"
    have b: "b = map (map (\<lambda>g. (fst g, snd g \<or> fst g = ?m))) a"
      using assms mm False by (simp add: masked_equal_min_def)
    have mn: "?m = Min (set (unmasked a))" using False by (rule min_list_Min)
    have "(x = ?m) = (x \<in> set (unmasked a) \<and> (\<forall>y\<in>set (unmasked a). x \<le> y))" for x
    proof
      assume "x = ?m"
      then show "x \<in> set (unmasked a) \<and> (\<forall>y\<in>set (unmasked a). x \<le> y)"
        using mn False by (simp add: Min_in)
    next
      assume "x \<in> set (unmasked a) \<and> (\<forall>y\<in>set (unmasked a). x \<le> y)"
      then have "Min (set (unmasked a)) = x" by (intro Min_eqI) auto
      then show "x = ?m" using mn by simp
    qed
    then show ?thesis using b by (simp add: spec_mask_minimum_def)
  qed
qed

text \<open>No gate that is left valid holds the least valid value of before.\<close>

lemma spec_mask_minimum_valid:
  assumes "g \<in> set (concat (spec_mask_minimum a))" "\<not> snd g"
  shows "g \<in> set (concat a)" "\<exists>y\<in>set (unmasked a). y < fst g"
proof -
  from assms(1) obtain row where row: "row \<in> set a"
    and g: "g \<in> set (map (\<lambda>g. (fst g, snd g \<or> (fst g \<in> set (unmasked a)
                                      \<and> (\<forall>y\<in>set (unmasked a). fst g \<le> y)))) row)"
    by (auto simp: spec_mask_minimum_def)
  then obtain g0 where g0: "g0 \<in> set row"
    and gg: "g = (fst g0, snd g0 \<or> (fst g0 \<in> set (unmasked a)
                                      \<and> (\<forall>y\<in>set (unmasked a). fst g0 \<le> y)))"
    by auto
  have ns: "\<not> snd g0" and nm: "\<not> (fst g0 \<in> set (unmasked a) \<and> (\<forall>y\<in>set (unmasked a). fst g0 \<le> y))"
    using assms(2) gg by auto
  have eq: "g = g0" using gg ns nm by (cases g0) auto
  have in_a: "g0 \<in> set (concat a)" using row g0 by auto
  show "g \<in> set (concat a)" using eq in_a by simp
  have "fst g0 \<in> set (unmasked a)" using in_a ns by (force simp: unmasked_def)
  with nm obtain y where "y \<in> set (unmasked a)" "\<not> fst g0 \<le> y" by blast
  then show "\<exists>y\<in>set (unmasked a). y < fst g" using eq by (auto simp: not_le)
qed

lemma spec_mask_minimum_values: "map (map fst) (spec_mask_minimum a) = map (map fst) a"
  by (simp add: spec_mask_minimum_def comp_def)

section \<open>The shape of the output\<close>

lemma concat_slice:
  "\<forall>row\<in>set A. length row = k \<Longrightarrow> j < length A
     \<Longrightarrow> take k (drop (j * k) (concat A)) = A ! j"
proof (induction A arbitrary: j)
  case Nil
  then show ?case by simp
next
  case (Cons a A)
  show ?case
  proof (cases j)
    case 0
    then show ?thesis using Cons.prems by simp
  next
    case (Suc i)
    then have "take k (drop (j * k) (concat (a # A))) = take k (drop (i * k) (concat A))"
      using Cons.prems by simp
    also have "\<dots> = A ! i" using Cons.IH[of i] Cons.prems Suc by simp
    finally show ?thesis using Suc by simp
  qed
qed

lemma spec_mask_minimum_shape: "map length (spec_mask_minimum a) = map length a"
  by (simp add: spec_mask_minimum_def)

lemma length_spec_mask_minimum: "length (spec_mask_minimum a) = length a"
  by (simp add: spec_mask_minimum_def)

lemma astype_m_shape: "map length (astype_m t a) = map length a"
  by (simp add: astype_m_def)

text \<open>
  The block of one sweep of a field has a row for every ray of the sweep, or of the grid of
  the sweep when it was interpolated, and a column for every gate of the range array.
\<close>

lemma sweep_field_shape:
  assumes "sweep_field X v azf f s = Inr b" "interp2d_shape X" "get_slice v s = Inr sl"
  shows "\<forall>row\<in>set b. length row = length (range_data v)"
    "length b = length (delete_extra_ray (slice sl (azimuth v)))
       \<or> (s < length azf \<and> length b = length (azf ! s))"
proof -
  let ?azi = "delete_extra_ray (slice sl (azimuth v))"
  from assms(1) obtain r mr fs fm where rs: "resample X v azf f s = Inr (r, mr, fs)"
    and mw: "masked_where_ge r mr fs = Inr fm" and me: "masked_equal_min fm = Inr b"
    by (rule sweep_field_Inr)
  have b: "b = spec_mask_minimum fm" using me by (rule masked_equal_min_spec)
  have sh1: "map length fm = map length fs" using mw by (rule masked_where_ge_shape)
  have sh2: "map length r = map length fs" using mw by (rule masked_where_ge_Inr)
  have shb: "map length b = map length fs" using b sh1 by (simp add: spec_mask_minimum_shape)
  from rs obtain sl' r0 r1 fld fsorted where
    sl': "get_slice v s = Inr sl'" and r0: "gate_r X v sl' = Inr r0"
    and d: "delete_extra_ray2 r0 (slice sl' (fdata f)) = Inr (r1, fld)"
    and ti: "take_idx fld (argsort (delete_extra_ray (slice sl' (azimuth v)))) = Inr fsorted"
    and same: "length fld = length (hd azf) \<longrightarrow> r = r1 \<and> fs = fsorted"
    and diff: "length fld \<noteq> length (hd azf) \<longrightarrow>
       length (argsort (delete_extra_ray (slice sl' (azimuth v)))) = length r1
     \<and> s < length azf
     \<and> interp1d X (map (\<lambda>i. delete_extra_ray (slice sl' (azimuth v)) ! i)
                      (argsort (delete_extra_ray (slice sl' (azimuth v))))) r1 (azf ! s) = Inr r
     \<and> (\<exists>fi. interp2d X (range_data v)
                 (map (\<lambda>i. delete_extra_ray (slice sl' (azimuth v)) ! i)
                      (argsort (delete_extra_ray (slice sl' (azimuth v)))))
                 (map (map fst) fsorted) (range_data v) (azf ! s) = Inr fi
             \<and> fs = map (map (\<lambda>x. (np_round3 x, False))) fi)"
    by (rule resample_Inr)
  have e: "sl' = sl" using sl' assms(3) by simp
  have rows0: "\<forall>row\<in>set r0. length row = length (range_data v)" using r0 by (rule gate_r_rows)
  have rows1: "\<forall>row\<in>set r1. length row = length (range_data v)"
    using delete_extra_ray2_Inr[OF d] rows0
    by (cases "length (slice sl' (fdata f)) = 361") (auto dest: in_set_butlastD)
  have lfs: "length fsorted = length ?azi"
    using take_idx_length[OF ti] e by (simp add: length_argsort)
  have rows_fs: "\<forall>row\<in>set fs. length row = length (range_data v)"
  proof (cases "length fld = length (hd azf)")
    case True
    with same have "r = r1" by simp
    then have "map length fs = map length r1" using sh2 by simp
    also have "\<dots> = replicate (length r1) (length (range_data v))"
      using rows1 by (rule map_length_const)
    finally have "\<forall>n\<in>set (map length fs). n = length (range_data v)"
      by (metis in_set_replicate)
    then show ?thesis by simp
  next
    case False
    with diff obtain fi where
      fi: "interp2d X (range_data v)
                 (map (\<lambda>i. delete_extra_ray (slice sl' (azimuth v)) ! i)
                      (argsort (delete_extra_ray (slice sl' (azimuth v)))))
                 (map (map fst) fsorted) (range_data v) (azf ! s) = Inr fi"
      and fs: "fs = map (map (\<lambda>x. (np_round3 x, False))) fi" by blast
    have "\<forall>row\<in>set fi. length row = length (range_data v)"
      using assms(2) fi unfolding interp2d_shape_def by blast
    then show ?thesis using fs by auto
  qed
  have "\<forall>n\<in>set (map length b). n = length (range_data v)" using shb rows_fs by simp
  then show "\<forall>row\<in>set b. length row = length (range_data v)" by simp
  have lb: "length b = length fs" using shb map_eq_imp_length_eq by blast
  show "length b = length ?azi \<or> (s < length azf \<and> length b = length (azf ! s))"
  proof (cases "length fld = length (hd azf)")
    case True
    with same lfs lb show ?thesis by simp
  next
    case False
    with diff obtain fi where s: "s < length azf"
      and fi: "interp2d X (range_data v)
                 (map (\<lambda>i. delete_extra_ray (slice sl' (azimuth v)) ! i)
                      (argsort (delete_extra_ray (slice sl' (azimuth v)))))
                 (map (map fst) fsorted) (range_data v) (azf ! s) = Inr fi"
      and fs: "fs = map (map (\<lambda>x. (np_round3 x, False))) fi" by blast
    have "length fi = length (azf ! s)"
      using assms(2) fi unfolding interp2d_shape_def by blast
    with s fs lb show ?thesis by simp
  qed
qed

lemma sweep_number_min_first:
  assumes "grid_loop v (min_list (sweep_number v)) None (sweep_number v) = Inr st"
    "distinct (sweep_number v)" "sweep_number v \<noteq> []"
  obtains ss where "sweep_number v = min_list (sweep_number v) # ss"
    "min_list (sweep_number v) \<notin> set ss"
proof -
  obtain s ss where sn: "sweep_number v = s # ss" using assms(3) by (cases "sweep_number v") auto
  have "s = min_list (sweep_number v)"
    using grid_loop_first[of v "min_list (sweep_number v)" s ss] assms(1) sn by simp
  then have sn': "sweep_number v = min_list (sweep_number v) # ss" using sn by simp
  then have "min_list (sweep_number v) \<notin> set ss" using assms(2) by (metis distinct.simps(2))
  with sn' show ?thesis by (rule that)
qed

text \<open>
  The data of a field after the run: a row for every ray of every sweep of the grid, a
  column for every gate.
\<close>

lemma field_result_shape:
  assumes d: "field_result X v A (min_list (sweep_number v)) f = Inr d"
    and g: "grid_loop v (min_list (sweep_number v)) None (sweep_number v)
              = Inr (Some (af, A, E, I))"
    and dist: "distinct (sweep_number v)" and law: "interp2d_shape X"
  shows "length d = length (sweep_number v) * ref_ray_count v"
    "\<forall>row\<in>set d. length row = length (range_data v)"
proof -
  let ?m = "min_list (sweep_number v)"
  let ?k = "ref_ray_count v"
  let ?g = "length (range_data v)"
  have ne: "sweep_number v \<noteq> []" using g by (cases "sweep_number v") auto
  from g dist ne obtain ss where sn: "sweep_number v = ?m # ss" and nin: "?m \<notin> set ss"
    by (rule sweep_number_min_first)
  note gd = grid_loop_distinct[OF g dist ne]
  from field_result_Inr[OF d sn nin] obtain F where Fne: "F \<noteq> []"
    and la: "list_all2 (\<lambda>s b. sweep_field X v A f s = Inr b
                   \<and> map length b = map length (hd F)) (sweep_number v) F"
    and me: "masked_equal_min (astype_m (fdtype f) (concat F)) = Inr d" by (elim exE conjE)
  have lenF: "length F = length (sweep_number v)" using list_all2_lengthD[OF la] by simp
  have hd0: "hd F = F ! 0" using Fne by (simp add: hd_conv_nth)
  have sf0: "sweep_field X v A f ?m = Inr (hd F)"
  proof -
    have "0 < length F" using Fne by simp
    then have "sweep_field X v A f (sweep_number v ! 0) = Inr (F ! 0)"
      using la by (simp add: list_all2_conv_all_nth)
    moreover have "sweep_number v ! 0 = ?m" using sn by (metis nth_Cons_0)
    ultimately show ?thesis using hd0 by simp
  qed
  have g': "grid_loop v ?m None (?m # ss) = Inr (Some (af, A, E, I))" using g sn by simp
  from grid_loop_char[OF g' nin] obtain af' azs els idx where
    ss: "sort_sweep v ?m = Inr (af', azs, els, idx)" by auto
  have af': "length af' = ?k" using ss by (rule ref_ray_count_sort_sweep[symmetric])
  from ss obtain sl where sl: "get_slice v ?m = Inr sl"
    and a: "af' = delete_extra_ray (slice sl (azimuth v))" by (rule sort_sweep_Inr)
  note sh = sweep_field_shape[OF sf0 law sl]
  have l0: "length (hd F) = ?k"
  proof -
    from sh(2) consider "length (hd F) = length (delete_extra_ray (slice sl (azimuth v)))"
      | "?m < length A" "length (hd F) = length (A ! ?m)" by blast
    then show ?thesis
    proof cases
      case 1
      then show ?thesis using a af' by simp
    next
      case 2
      then have "A ! ?m \<in> set A" by simp
      then show ?thesis using gd(4) 2 by simp
    qed
  qed
  have shape0: "map length (hd F) = replicate ?k ?g"
    using map_length_const[OF sh(1)] l0 by simp
  have blocks: "\<forall>b\<in>set F. map length b = replicate ?k ?g"
  proof
    fix b assume "b \<in> set F"
    then obtain j where "j < length F" "F ! j = b" by (auto simp: in_set_conv_nth)
    then have "map length b = map length (hd F)"
      using la by (auto simp: list_all2_conv_all_nth)
    then show "map length b = replicate ?k ?g" using shape0 by simp
  qed
  have lb: "\<forall>b\<in>set F. length b = ?k"
  proof
    fix b assume "b \<in> set F"
    with blocks have "map length b = replicate ?k ?g" by simp
    then have "length (map length b) = length (replicate ?k ?g)" by simp
    then show "length b = ?k" by simp
  qed
  have rows: "\<forall>row\<in>set (concat F). length row = ?g"
  proof
    fix row assume "row \<in> set (concat F)"
    then obtain b where b: "b \<in> set F" "row \<in> set b" by auto
    then have "length row \<in> set (map length b)" by simp
    then have "length row \<in> set (replicate ?k ?g)" using blocks b(1) by simp
    then show "length row = ?g" by simp
  qed
  have dd: "d = spec_mask_minimum (astype_m (fdtype f) (concat F))"
    using me by (rule masked_equal_min_spec)
  then have shd: "map length d = map length (concat F)"
    by (simp add: spec_mask_minimum_shape astype_m_shape)
  then have "length d = length (concat F)" using map_eq_imp_length_eq by blast
  also have "\<dots> = length F * ?k" using lb by (rule length_concat_const)
  finally show "length d = length (sweep_number v) * ?k" using lenF by simp
  have "\<forall>n\<in>set (map length d). n = ?g" using shd rows by simp
  then show "\<forall>row\<in>set d. length row = ?g" by simp
qed

lemma main_tables:
  assumes "main X v = Inr v'" and "distinct (sweep_number v)"
  shows "0 < ref_ray_count v" "2 \<le> length (sweep_number v)"
    "sweep_start_ray_index v' = map (\<lambda>i. i * ref_ray_count v) [0..<length (sweep_number v)]"
    "sweep_end_ray_index v'
       = map (\<lambda>i. (i + 1) * ref_ray_count v - 1) [0..<length (sweep_number v)]"
    "nrays v' = length (sweep_number v) * ref_ray_count v"
proof -
  from assms(1) obtain af A E I vf ff t where ne: "sweep_number v \<noteq> []"
    and g: "grid_loop v (min_list (sweep_number v)) None (sweep_number v)
              = Inr (Some (af, A, E, I))"
    and fin: "finish vf t A E = Inr v'"
    by (rule main_Inr)
  note gd = grid_loop_distinct[OF g assms(2) ne]
  have rows: "\<forall>row\<in>set A. length row = ref_ray_count v" using gd(4) by simp
  have Ane: "A \<noteq> []" using gd(2) ne by auto
  note f = finish_Inr[OF fin Ane rows]
  show "0 < ref_ray_count v" by (rule f(1))
  show "2 \<le> length (sweep_number v)" using f(2) gd(2) by simp
  show "sweep_start_ray_index v' = map (\<lambda>i. i * ref_ray_count v) [0..<length (sweep_number v)]"
    using f(6) gd(2) by simp
  show "sweep_end_ray_index v'
       = map (\<lambda>i. (i + 1) * ref_ray_count v - 1) [0..<length (sweep_number v)]"
    using f(7) gd(2) by simp
  show "nrays v' = length (sweep_number v) * ref_ray_count v" using f(5) gd(2) by simp
qed

text \<open>The rays of sweep \<open>j\<close> in the volume after the run.\<close>

lemma main_get_slice:
  assumes "main X v = Inr v'" and "distinct (sweep_number v)" and "j < length (sweep_number v)"
  shows "get_slice v' j = Inr (j * ref_ray_count v, (j + 1) * ref_ray_count v)"
proof -
  note t = main_tables[OF assms(1,2)]
  have "0 < (j + 1) * ref_ray_count v" using t(1) by simp
  then have "(j + 1) * ref_ray_count v - 1 + 1 = (j + 1) * ref_ray_count v" by simp
  then show ?thesis using t(3,4) assms(3) by (simp add: get_slice_def)
qed

lemma slice_concat:
  assumes "\<forall>row\<in>set A. length row = k" "j < length A"
  shows "slice (j * k, (j + 1) * k) (concat A) = A ! j"
proof -
  have "(j + 1) * k - j * k = k" by simp
  then show ?thesis using concat_slice[OF assms] by (simp add: slice_def)
qed

lemma slice_map: "slice sl (map h xs) = map h (slice sl xs)"
  by (simp add: slice_def take_map drop_map)

section \<open>The masks of a sweep block\<close>

lemma masked_where_ge_nth:
  assumes "masked_where_ge r mr a = Inr fm" "i < length a" "q < length (a ! i)"
  shows "fm ! i ! q = (fst (a ! i ! q), snd (a ! i ! q) \<or> mr \<le> r ! i ! q)"
proof -
  have sh: "map length r = map length a" using assms(1) by (rule masked_where_ge_Inr)
  have fm: "fm = map2 (\<lambda>rr ar. map2 (\<lambda>d g. (fst g, snd g \<or> mr \<le> d)) rr ar) r a"
    using assms(1) sh by (simp add: masked_where_ge_def)
  have len: "length r = length a" using sh map_eq_imp_length_eq by blast
  have "length (r ! i) = length (a ! i)" using sh assms(2) len by (metis length_map nth_map)
  then show ?thesis using fm len assms(2,3) by simp
qed

lemma spec_mask_minimum_nth:
  assumes "i < length a" "q < length (a ! i)"
  shows "spec_mask_minimum a ! i ! q
           = (fst (a ! i ! q), snd (a ! i ! q) \<or> (fst (a ! i ! q) \<in> set (unmasked a)
                 \<and> (\<forall>y\<in>set (unmasked a). fst (a ! i ! q) \<le> y)))"
  using assms by (simp add: spec_mask_minimum_def)

text \<open>A gate that the rule has masked lies strictly below every gate that it has left valid.\<close>

lemma spec_mask_minimum_below:
  assumes "i < length a" "q < length (a ! i)" "\<not> snd (a ! i ! q)"
    "snd (spec_mask_minimum a ! i ! q)"
  shows "\<forall>g\<in>set (concat (spec_mask_minimum a)). \<not> snd g
           \<longrightarrow> fst (spec_mask_minimum a ! i ! q) < fst g"
proof (intro ballI impI)
  fix g assume g: "g \<in> set (concat (spec_mask_minimum a))" "\<not> snd g"
  let ?x = "fst (a ! i ! q)"
  have n: "spec_mask_minimum a ! i ! q
           = (?x, snd (a ! i ! q) \<or> (?x \<in> set (unmasked a) \<and> (\<forall>y\<in>set (unmasked a). ?x \<le> y)))"
    using assms(1,2) by (rule spec_mask_minimum_nth)
  then have least: "\<forall>y\<in>set (unmasked a). ?x \<le> y" using assms(3,4) by simp
  from spec_mask_minimum_valid(2)[OF g] obtain y where y: "y \<in> set (unmasked a)" "y < fst g"
    by blast
  have "?x \<le> y" using least y(1) by simp
  then show "fst (spec_mask_minimum a ! i ! q) < fst g" using y(2) n by simp
qed

text \<open>
  The block of a sweep against the range array and the unambiguous range of lines 83-116:
  the values are those of the sorted or interpolated field, every gate at or beyond the
  unambiguous range is masked, and a gate below it that is masked was masked in the field
  or lies strictly below every gate of the block that is left valid.
\<close>

lemma sweep_field_masks:
  assumes "sweep_field X v azf f s = Inr b" "get_slice v s = Inr sl"
  shows "\<exists>r mr fs. resample X v azf f s = Inr (r, mr, fs)
           \<and> mr = hd (slice sl (unambiguous_range v))
           \<and> map length r = map length b \<and> map length fs = map length b
           \<and> (\<forall>i < length b. \<forall>q < length (b ! i).
                 fst (b ! i ! q) = fst (fs ! i ! q)
               \<and> (mr \<le> r ! i ! q \<longrightarrow> snd (b ! i ! q))
               \<and> (snd (fs ! i ! q) \<longrightarrow> snd (b ! i ! q))
               \<and> (r ! i ! q < mr \<and> snd (b ! i ! q) \<and> \<not> snd (fs ! i ! q) \<longrightarrow>
                    (\<forall>g\<in>set (concat b). \<not> snd g \<longrightarrow> fst (b ! i ! q) < fst g)))"
proof -
  from assms(1) obtain r mr fs fm where rs: "resample X v azf f s = Inr (r, mr, fs)"
    and mw: "masked_where_ge r mr fs = Inr fm" and me: "masked_equal_min fm = Inr b"
    by (rule sweep_field_Inr)
  have b: "b = spec_mask_minimum fm" using me by (rule masked_equal_min_spec)
  have sh1: "map length fm = map length fs" using mw by (rule masked_where_ge_shape)
  have sh2: "map length r = map length fs" using mw by (rule masked_where_ge_Inr)
  have shb: "map length b = map length fm" using b by (simp add: spec_mask_minimum_shape)
  from rs obtain sl' where sl': "get_slice v s = Inr sl'"
    and mr': "mr = hd (slice sl' (unambiguous_range v))" by (rule resample_Inr)
  have mr: "mr = hd (slice sl (unambiguous_range v))" using sl' mr' assms(2) by simp
  have lens: "length b = length fm" "length fm = length fs"
    using shb sh1 map_eq_imp_length_eq by blast+
  have gates: "fst (b ! i ! q) = fst (fs ! i ! q)
               \<and> (mr \<le> r ! i ! q \<longrightarrow> snd (b ! i ! q))
               \<and> (snd (fs ! i ! q) \<longrightarrow> snd (b ! i ! q))
               \<and> (r ! i ! q < mr \<and> snd (b ! i ! q) \<and> \<not> snd (fs ! i ! q) \<longrightarrow>
                    (\<forall>g\<in>set (concat b). \<not> snd g \<longrightarrow> fst (b ! i ! q) < fst g))"
    if i: "i < length b" and q: "q < length (b ! i)" for i q
  proof -
    have i1: "i < length fm" "i < length fs" using i lens by simp_all
    have "length (b ! i) = length (fm ! i)" using shb i1(1) i by (metis length_map nth_map)
    then have q1: "q < length (fm ! i)" using q by simp
    have "length (fm ! i) = length (fs ! i)" using sh1 i1 by (metis length_map nth_map)
    then have q2: "q < length (fs ! i)" using q1 by simp
    have fmn: "fm ! i ! q = (fst (fs ! i ! q), snd (fs ! i ! q) \<or> mr \<le> r ! i ! q)"
      using mw i1(2) q2 by (rule masked_where_ge_nth)
    have bn: "b ! i ! q = (fst (fm ! i ! q), snd (fm ! i ! q) \<or> (fst (fm ! i ! q) \<in> set (unmasked fm)
                 \<and> (\<forall>y\<in>set (unmasked fm). fst (fm ! i ! q) \<le> y)))"
      unfolding b using i1(1) q1 by (rule spec_mask_minimum_nth)
    have c1: "fst (b ! i ! q) = fst (fs ! i ! q)" using bn fmn by simp
    have c2: "mr \<le> r ! i ! q \<longrightarrow> snd (b ! i ! q)" using bn fmn by simp
    have c3: "snd (fs ! i ! q) \<longrightarrow> snd (b ! i ! q)" using bn fmn by simp
    have c4: "r ! i ! q < mr \<and> snd (b ! i ! q) \<and> \<not> snd (fs ! i ! q) \<longrightarrow>
                    (\<forall>g\<in>set (concat b). \<not> snd g \<longrightarrow> fst (b ! i ! q) < fst g)"
    proof
      assume h: "r ! i ! q < mr \<and> snd (b ! i ! q) \<and> \<not> snd (fs ! i ! q)"
      then have nf: "\<not> snd (fm ! i ! q)" using fmn by simp
      have mb: "snd (spec_mask_minimum fm ! i ! q)" using h b by simp
      show "\<forall>g\<in>set (concat b). \<not> snd g \<longrightarrow> fst (b ! i ! q) < fst g"
        unfolding b using i1(1) q1 nf mb by (rule spec_mask_minimum_below)
    qed
    show ?thesis by (intro conjI c1 c2 c3 c4)
  qed
  have sr: "map length r = map length b" using sh2 sh1 shb by simp
  have sf: "map length fs = map length b" using sh1 shb by simp
  have all: "\<forall>i < length b. \<forall>q < length (b ! i).
                 fst (b ! i ! q) = fst (fs ! i ! q)
               \<and> (mr \<le> r ! i ! q \<longrightarrow> snd (b ! i ! q))
               \<and> (snd (fs ! i ! q) \<longrightarrow> snd (b ! i ! q))
               \<and> (r ! i ! q < mr \<and> snd (b ! i ! q) \<and> \<not> snd (fs ! i ! q) \<longrightarrow>
                    (\<forall>g\<in>set (concat b). \<not> snd g \<longrightarrow> fst (b ! i ! q) < fst g))"
    using gates by blast
  show ?thesis
    by (rule exI[of _ r], rule exI[of _ mr], rule exI[of _ fs]) (intro conjI rs mr sr sf all)
qed

section \<open>The claims\<close>

text \<open>
  Claim C8. A volume without sweeps: \<^verbatim>\<open>np.min\<close> of the empty sweep number array raises
  at line 27, before anything is read or written, so \<open>main\<close> fails and the radar object
  at the raise is the one that was passed in.
\<close>

theorem main_empty_volume:
  "sweep_number v = [] \<Longrightarrow> main X v = Inl (ValueError, v)"
  by (simp add: main_def)

theorem main_empty_volume_witness:
  "sweep_number v_empty = [] \<and> main X0 v_empty = Inl (ValueError, v_empty)"
proof -
  have h: "sweep_number v_empty = []" by (simp add: v_empty_def)
  show ?thesis using h main_empty_volume [OF h, of X0] by simp
qed

text \<open>
  Claim C9. A volume of exactly one sweep: whatever happens before, \<open>main\<close> does not
  return, so a run that returns had at least two sweeps. The grid of one sweep has one row;
  the start index table made from it at line 141 has the single entry 0, and reading its
  second element at line 142 raises \<^verbatim>\<open>IndexError\<close>.
\<close>

theorem main_single_sweep:
  "(length (sweep_number v) = 1 \<longrightarrow> (\<exists>e s. main X v = Inl (e, s)))
   \<and> (\<forall>v'. main X v = Inr v' \<longrightarrow> 2 \<le> length (sweep_number v))
   \<and> (\<forall>row E t. row \<noteq> [] \<longrightarrow>
         (\<exists>s. finish v t [row] E = Inl (IndexError, s) \<and> sweep_start_ray_index s = [0]))"
proof -
  have one: "\<exists>e s. main X v = Inl (e, s)" if len: "length (sweep_number v) = 1"
  proof -
    from len obtain m where sw: "sweep_number v = [m]"
      by (cases "sweep_number v") auto
    show ?thesis
    proof (cases "grid_loop v m None [m]")
      case (Inl e)
      then show ?thesis using sw by (simp add: main_def)
    next
      case (Inr st)
      then obtain azi azs els idx where st: "st = Some (azi, [azs], [els], [idx])"
        using grid_loop_single by meson
      show ?thesis
      proof (cases "field_loop X [azs] m (v, None, None) (map fst (fields_dict v))")
        case (Inl e)
        then show ?thesis using sw Inr st by (cases e) (simp add: main_def)
      next
        case fl: (Inr r)
        obtain v' ff ft where r: "r = (v', ff, ft)" by (cases r) auto
        show ?thesis
        proof (cases ft)
          case None
          then show ?thesis using sw Inr st fl r by (simp add: main_def)
        next
          case (Some t)
          obtain e s where "finish v' t [azs] [els] = Inl (e, s)" using finish_single by meson
          then show ?thesis using sw Inr st fl r Some by (simp add: main_def)
        qed
      qed
    qed
  qed
  have two: "2 \<le> length (sweep_number v)" if ok: "main X v = Inr v'" for v'
  proof (rule ccontr)
    assume "\<not> 2 \<le> length (sweep_number v)"
    then have "length (sweep_number v) = 0 \<or> length (sweep_number v) = 1" by arith
    then consider "sweep_number v = []" | "length (sweep_number v) = 1" by auto
    then show False
    proof cases
      case 1
      then show False using ok by (simp add: main_def)
    next
      case 2
      then show False using one ok by auto
    qed
  qed
  have three: "\<exists>s. finish v t [row] E = Inl (IndexError, s) \<and> sweep_start_ray_index s = [0]"
    if "row \<noteq> []" for row E t
    using finish_single_IndexError [OF that, of v t E] by meson
  from one two three show ?thesis by blast
qed

theorem main_single_sweep_witness:
  "length (sweep_number v_single) = 1 \<and> (\<exists>s. main X0 v_single = Inl (IndexError, s))
   \<and> main X0 v0 = Inr v1 \<and> 2 \<le> length (sweep_number v0)
   \<and> (\<exists>s. finish v_single DFloat [[0, 10]] [[2, 1]] = Inl (IndexError, s)
          \<and> sweep_start_ray_index s = [0])"
proof -
  have a: "length (sweep_number v_single) = 1" by (simp add: v_single_def)
  have b: "main X0 v0 = Inr v1" by code_simp
  have c: "[0, 10::real] \<noteq> []" by simp
  have d: "isl (main X0 v_single) \<and> fst (projl (main X0 v_single)) = IndexError" by code_simp
  then have e: "\<exists>s. main X0 v_single = Inl (IndexError, s)"
    by (cases "main X0 v_single") auto
  show ?thesis using a b c e main_single_sweep [of v_single X0] main_single_sweep [of v0 X0]
    by blast
qed

text \<open>
  Claim C3. In the grid that \<^verbatim>\<open>main\<close> builds (lines 31-76), the row of a sweep whose sorted
  azimuth array has not the length of the lowest sweep's azimuth array is the uniformly
  spaced array of that length from the sweep's first sorted azimuth to its last, its
  elevation row repeats the sorted elevations cyclically, and the row of a sweep of the
  same length is the sorted array, unchanged.
\<close>

theorem homogenize_grid:
  assumes "grid_loop v m None (m # ss) = Inr (Some (af, A, E, I))" and "m \<notin> set ss"
    and "j < length (m # ss)" and "sort_sweep v ((m # ss) ! j) = Inr (azi, azs, els, idx)"
  shows "(length azs \<noteq> length af \<longrightarrow>
            length (A ! j) = length af \<and> length (E ! j) = length af
          \<and> (\<forall>i < length af. A ! j ! i
                 = azs ! 0 + real i * ((last azs - azs ! 0) / real (length af - 1)))
          \<and> (0 < length af \<longrightarrow> A ! j ! 0 = azs ! 0)
          \<and> (1 < length af \<longrightarrow> last (A ! j) = last azs)
          \<and> (\<forall>i < length af. E ! j ! i = els ! (i mod length els)))
       \<and> (length azs = length af \<longrightarrow> A ! j = azs \<and> E ! j = els)"
proof (intro conjI impI)
  note h = grid_loop_row(1)[OF assms]
  have le: "length els = length azs" using sort_sweep_props(1,3)[OF assms(4)] by simp
  {
    assume "length azs = length af"
    then have "homogenize (length af) azs els idx = Inr (azs, els, idx)"
      by (rule homogenize_same)
    with h show "A ! j = azs" "E ! j = els" by simp_all
  }
  assume d: "length azs \<noteq> length af"
  note hd = homogenize_diff[OF h d]
  have ne: "els \<noteq> []" using hd(1) le by auto
  show "length (A ! j) = length af" using hd(2) by (simp add: linspace_length)
  show "length (E ! j) = length af" using hd(3) by (simp add: np_resize_length)
  show "\<forall>i < length af. A ! j ! i
          = azs ! 0 + real i * ((last azs - azs ! 0) / real (length af - 1))"
    using hd(2) by (simp add: linspace_nth)
  show "\<forall>i < length af. E ! j ! i = els ! (i mod length els)"
    using hd(3) ne by (simp add: np_resize_nth)
  {
    assume "0 < length af"
    then show "A ! j ! 0 = azs ! 0" using hd(2) by (simp add: linspace_nth)
  }
  assume "1 < length af"
  then show "last (A ! j) = last azs" using hd(2) by (simp add: linspace_last)
qed

theorem homogenize_grid_witness:
  "grid_loop v_ragged 0 None (0 # [1])
     = Inr (Some ([20, 0, 10], [[0, 10, 20], [10, 20, 30]], [[2, 3, 1], [5, 4, 5]],
                  [[1, 2, 0], [0, 1, 2]]))
   \<and> sort_sweep v_ragged ((0 # [1]) ! 1) = Inr ([30, 10], [10, 30], [5, 4], [1, 0])
   \<and> length [10, 30 :: real] \<noteq> length [20, 0, 10 :: real]
   \<and> [[0, 10, 20], [10, 20, 30 :: real]] ! 1 ! 0 = [10, 30] ! 0
   \<and> last ([[0, 10, 20], [10, 20, 30 :: real]] ! 1) = last [10, 30]
   \<and> [[2, 3, 1], [5, 4, 5 :: real]] ! 1 ! 2 = [5, 4] ! (2 mod 2)"
proof -
  have a: "grid_loop v_ragged 0 None (0 # [1])
     = Inr (Some ([20, 0, 10], [[0, 10, 20], [10, 20, 30]], [[2, 3, 1], [5, 4, 5]],
                  [[1, 2, 0], [0, 1, 2]]))" by code_simp
  have b: "(0::nat) \<notin> set [1]" by simp
  have c: "1 < length (0 # [1::nat])" by simp
  have d: "sort_sweep v_ragged ((0 # [1]) ! 1) = Inr ([30, 10], [10, 30], [5, 4], [1, 0])"
    by code_simp
  show ?thesis using a d homogenize_grid [OF a b c d]
    by (simp add: numeral_2_eq_2 numeral_3_eq_3)
qed



text \<open>
  Claim C6. When \<^verbatim>\<open>main\<close> has returned on a volume of \<open>n\<close> sweeps with distinct sweep numbers,
  \<open>k\<close> being the ray count of the lowest sweep after the deletion of its extra ray, the
  volume has \<open>n * k\<close> rays, the start indices are \<open>0, k, 2k, \<dots>\<close> and the end indices
  \<open>k - 1, 2k - 1, \<dots>\<close>, one of each for every sweep. Lines 136-142 make of a grid of three
  sweeps of 360 rays the start indices 0, 360, 720 and the end indices 359, 719, 1079.
\<close>

theorem ray_index_tables:
  assumes "n = length (sweep_number v)" and "k = ref_ray_count v"
  shows "(\<forall>v'. main X v = Inr v' \<and> distinct (sweep_number v) \<longrightarrow>
            nrays v' = n * k \<and> length (azimuth v') = n * k \<and> length (elevation v') = n * k
          \<and> sweep_start_ray_index v' = map (\<lambda>i. i * k) [0..<n]
          \<and> sweep_end_ray_index v' = map (\<lambda>i. (i + 1) * k - 1) [0..<n])
       \<and> (length A = 3 \<and> (\<forall>row\<in>set A. length row = 360) \<longrightarrow>
            (\<exists>v'. finish vf t A E = Inr v' \<and> nrays v' = 1080
                 \<and> sweep_start_ray_index v' = [0, 360, 720]
                 \<and> sweep_end_ray_index v' = [359, 719, 1079]))"
proof (intro conjI allI impI)
  fix v'
  assume h: "main X v = Inr v' \<and> distinct (sweep_number v)"
  then have m: "main X v = Inr v'" and dist: "distinct (sweep_number v)" by simp_all
  from m obtain af A' E' I vf' ff t' where ne: "sweep_number v \<noteq> []"
    and g: "grid_loop v (min_list (sweep_number v)) None (sweep_number v)
              = Inr (Some (af, A', E', I))"
    and fin: "finish vf' t' A' E' = Inr v'"
    by (rule main_Inr)
  note gd = grid_loop_distinct[OF g dist ne]
  have lA: "length A' = n" and lE: "length E' = n" using gd(2,3) assms(1) by simp_all
  have rows: "\<forall>row\<in>set A'. length row = k" using gd(4) assms(2) by simp
  have rowsE: "\<forall>row\<in>set E'. length row = k" using gd(5) assms(2) by simp
  have Ane: "A' \<noteq> []" using lA ne assms(1) by auto
  note f = finish_Inr[OF fin Ane rows]
  show "nrays v' = n * k" using f(5) lA by simp
  show "length (azimuth v') = n * k"
    using f(3) lA length_concat_const[OF rows] by simp
  show "length (elevation v') = n * k"
    using f(4) lE length_concat_const[OF rowsE] by simp
  show "sweep_start_ray_index v' = map (\<lambda>i. i * k) [0..<n]" using f(6) lA by simp
  show "sweep_end_ray_index v' = map (\<lambda>i. (i + 1) * k - 1) [0..<n]" using f(7) lA by simp
next
  assume h: "length A = 3 \<and> (\<forall>row\<in>set A. length row = 360)"
  then have l: "length A = 3" and rows: "\<forall>row\<in>set A. length row = 360" by simp_all
  have "2 \<le> length A" using l by simp
  from finish_ok[OF this rows, of vf t E]
  have "finish vf t A E
           = Inr (vf\<lparr>azimuth := map (astype t) (concat A),
                      elevation := map (astype t) (concat E),
                      nrays := length A * 360,
                      sweep_start_ray_index := map (\<lambda>i. i * 360) [0..<length A],
                      sweep_end_ray_index := map (\<lambda>i. (i + 1) * 360 - 1) [0..<length A]\<rparr>)"
    by simp
  moreover have "[0..<length A] = [0, 1, 2]" using l by (simp add: upt_rec)
  ultimately show "\<exists>v'. finish vf t A E = Inr v' \<and> nrays v' = 1080
                 \<and> sweep_start_ray_index v' = [0, 360, 720]
                 \<and> sweep_end_ray_index v' = [359, 719, 1079]"
    using l by simp
qed

theorem ray_index_tables_witness:
  "main X0 v0 = Inr v1 \<and> distinct (sweep_number v0) \<and> ref_ray_count v0 = 2
   \<and> nrays v1 = 2 * 2 \<and> sweep_start_ray_index v1 = [0, 2] \<and> sweep_end_ray_index v1 = [1, 3]
   \<and> length (replicate 3 (map real [0..<360])) = 3
   \<and> (\<exists>v'. finish v0 DFloat (replicate 3 (map real [0..<360])) (replicate 3 (replicate 360 1))
              = Inr v'
          \<and> sweep_start_ray_index v' = [0, 360, 720]
          \<and> sweep_end_ray_index v' = [359, 719, 1079])"
proof -
  have a: "main X0 v0 = Inr v1" by code_simp
  have b: "distinct (sweep_number v0)" by (simp add: v0_def)
  have c: "ref_ray_count v0 = 2" by code_simp
  have d: "length (sweep_number v0) = 2" by (simp add: v0_def)
  have e: "length (replicate 3 (map real [0..<360])) = 3
             \<and> (\<forall>row\<in>set (replicate 3 (map real [0..<360])). length row = 360)" by simp
  have u: "[0..<2] = [0, 1]" by (simp add: upt_rec)
  note inst = ray_index_tables [OF d[symmetric] c[symmetric], of X0
      "replicate 3 (map real [0..<360])" v0 DFloat "replicate 3 (replicate 360 1)"]
  have f: "nrays v1 = 2 * 2 \<and> sweep_start_ray_index v1 = [0, 2]
             \<and> sweep_end_ray_index v1 = [1, 3]"
    using inst a b u by simp
  have g: "\<exists>v'. finish v0 DFloat (replicate 3 (map real [0..<360])) (replicate 3 (replicate 360 1))
              = Inr v'
          \<and> sweep_start_ray_index v' = [0, 360, 720]
          \<and> sweep_end_ray_index v' = [359, 719, 1079]"
    using inst e by blast
  show ?thesis using a b c e f g by (intro conjI) simp_all
qed

text \<open>
  Claim C10. When \<^verbatim>\<open>main\<close> has returned, the azimuth and elevation arrays of the volume are
  the rows of the grid, one after the other, cast to the type \<open>t\<close> of the field that the loop
  over the fields has seen last, the last field of the volume. When \<open>t\<close> is an integer type,
  every angle in the range of \<open>t\<close> has lost its fractional part: it is rounded towards zero.
\<close>

theorem angles_cast:
  assumes "main X v = Inr v'" and "distinct (map fst (fields_dict v))"
    and "t = fdtype (snd (last (fields_dict v)))"
  shows "fields_dict v \<noteq> []
    \<and> (\<exists>af A E I.
          grid_loop v (min_list (sweep_number v)) None (sweep_number v)
            = Inr (Some (af, A, E, I))
        \<and> azimuth v' = map (astype t) (concat A)
        \<and> elevation v' = map (astype t) (concat E)
        \<and> (t \<noteq> DFloat \<longrightarrow>
             (\<forall>i < length (concat A). in_range t (concat A ! i) \<longrightarrow>
                azimuth v' ! i = of_int (if 0 \<le> concat A ! i then \<lfloor>concat A ! i\<rfloor>
                                         else \<lceil>concat A ! i\<rceil>))
           \<and> (\<forall>i < length (concat E). in_range t (concat E ! i) \<longrightarrow>
                elevation v' ! i = of_int (if 0 \<le> concat E ! i then \<lfloor>concat E ! i\<rfloor>
                                           else \<lceil>concat E ! i\<rceil>))))"
proof -
  from assms(1,2) obtain af A E I where
    g: "grid_loop v (min_list (sweep_number v)) None (sweep_number v) = Inr (Some (af, A, E, I))"
    and ne: "fields_dict v \<noteq> []"
    and az: "azimuth v' = map (astype (fdtype (snd (last (fields_dict v))))) (concat A)"
    and el: "elevation v' = map (astype (fdtype (snd (last (fields_dict v))))) (concat E)"
    by (rule main_char)
  have az': "azimuth v' = map (astype t) (concat A)" using az assms(3) by simp
  have el': "elevation v' = map (astype t) (concat E)" using el assms(3) by simp
  have cast: "astype t x = of_int (if 0 \<le> x then \<lfloor>x\<rfloor> else \<lceil>x\<rceil>)"
    if "t \<noteq> DFloat" "in_range t x" for x
    using that by (simp add: astype_in_range trunc_def)
  have i1: "t \<noteq> DFloat \<longrightarrow>
             (\<forall>i < length (concat A). in_range t (concat A ! i) \<longrightarrow>
                azimuth v' ! i = of_int (if 0 \<le> concat A ! i then \<lfloor>concat A ! i\<rfloor>
                                         else \<lceil>concat A ! i\<rceil>))
           \<and> (\<forall>i < length (concat E). in_range t (concat E ! i) \<longrightarrow>
                elevation v' ! i = of_int (if 0 \<le> concat E ! i then \<lfloor>concat E ! i\<rfloor>
                                           else \<lceil>concat E ! i\<rceil>))"
    using az' el' cast by simp
  show ?thesis
    by (rule conjI[OF ne], rule exI[of _ af], rule exI[of _ A], rule exI[of _ E],
        rule exI[of _ I]) (intro conjI g az' el' i1)
qed

theorem angles_cast_witness:
  "distinct (map fst (fields_dict v_int))
   \<and> fdtype (snd (last (fields_dict v_int))) = DInt 16
   \<and> grid_loop v_int (min_list (sweep_number v_int)) None (sweep_number v_int)
       = Inr (Some ([21 / 2, 1 / 4], [[1 / 4, 21 / 2], [3 / 4, 21 / 2]],
                    [[5 / 2, 3 / 2], [- 1 / 2, 9 / 2]], [[1, 0], [0, 1]]))
   \<and> (\<exists>v'. main X0 v_int = Inr v' \<and> azimuth v' = [0, 10, 0, 10]
          \<and> elevation v' = [2, 1, 0, 4])"
proof -
  have a: "distinct (map fst (fields_dict v_int))" by (simp add: v_int_def)
  have b: "fdtype (snd (last (fields_dict v_int))) = DInt 16" by (simp add: v_int_def)
  have c: "grid_loop v_int (min_list (sweep_number v_int)) None (sweep_number v_int)
       = Inr (Some ([21 / 2, 1 / 4], [[1 / 4, 21 / 2], [3 / 4, 21 / 2]],
                    [[5 / 2, 3 / 2], [- 1 / 2, 9 / 2]], [[1, 0], [0, 1]]))" by code_simp
  have d: "\<not> isl (main X0 v_int)" by code_simp
  then obtain v' where m: "main X0 v_int = Inr v'" by (cases "main X0 v_int") auto
  have e: "map (astype (DInt 16)) (concat [[1 / 4, 21 / 2], [3 / 4, 21 / 2]]) = [0, 10, 0, 10]"
    by code_simp
  have f: "map (astype (DInt 16)) (concat [[5 / 2, 3 / 2], [- 1 / 2, 9 / 2]]) = [2, 1, 0, 4]"
    by code_simp
  have "azimuth v' = [0, 10, 0, 10] \<and> elevation v' = [2, 1, 0, 4]"
    using angles_cast [OF m a b[symmetric]] c e f by auto
  with m have g: "\<exists>v'. main X0 v_int = Inr v' \<and> azimuth v' = [0, 10, 0, 10]
          \<and> elevation v' = [2, 1, 0, 4]" by blast
  show ?thesis by (intro conjI a b c g)
qed

text \<open>
  Claim C5. When \<^verbatim>\<open>main\<close> has returned, the data of every field \<open>f\<close> of the volume are made
  so: for every sweep, the array \<open>fm\<close> that lines 83-119 make of the field (sorted or
  interpolated, then masked beyond the unambiguous range) gets every gate masked that
  holds the least of its valid values (line 122); the blocks \<open>F\<close> of all sweeps are stacked
  and cast, and the gates that hold the least valid value of the whole stack are masked
  once more (lines 132-133). A gate that is valid afterwards lies strictly above a value
  that was valid before: a measured minimum is masked like a fill value.
\<close>

theorem minimum_masked_twice:
  assumes "main X v = Inr v'" and "distinct (sweep_number v)"
    and "distinct (map fst (fields_dict v))" and "(name, f) \<in> set (fields_dict v)"
  shows "\<exists>af A E I F d.
      grid_loop v (min_list (sweep_number v)) None (sweep_number v) = Inr (Some (af, A, E, I))
    \<and> length F = length (sweep_number v)
    \<and> (\<forall>j < length F. \<exists>r mr fs fm.
           resample X v A f (sweep_number v ! j) = Inr (r, mr, fs)
         \<and> masked_where_ge r mr fs = Inr fm
         \<and> F ! j = spec_mask_minimum fm
         \<and> (\<forall>g\<in>set (concat (F ! j)). \<not> snd g \<longrightarrow> (\<exists>y\<in>set (unmasked fm). y < fst g)))
    \<and> d = spec_mask_minimum (astype_m (fdtype f) (concat F))
    \<and> (\<forall>g\<in>set (concat d). \<not> snd g \<longrightarrow>
           (\<exists>y\<in>set (unmasked (astype_m (fdtype f) (concat F))). y < fst g))
    \<and> map_of (fields_dict v') name = Some (f\<lparr>fdata := d\<rparr>)"
proof -
  let ?m = "min_list (sweep_number v)"
  from assms(1,3) obtain af A E I where
    g: "grid_loop v ?m None (sweep_number v) = Inr (Some (af, A, E, I))"
    and each: "\<forall>(name, f)\<in>set (fields_dict v). \<exists>d. field_result X v A ?m f = Inr d
         \<and> map_of (fields_dict v') name = Some (f\<lparr>fdata := d\<rparr>)"
    by (rule main_char)
  from each assms(4) obtain d where d: "field_result X v A ?m f = Inr d"
    and mo: "map_of (fields_dict v') name = Some (f\<lparr>fdata := d\<rparr>)" by blast
  have ne: "sweep_number v \<noteq> []" using assms(1) by (auto simp: main_def)
  then obtain s ss where sn: "sweep_number v = s # ss" by (cases "sweep_number v") auto
  have "s = ?m" using grid_loop_first[of v ?m s ss] g sn by simp
  then have sn': "sweep_number v = ?m # ss" using sn by simp
  have nin: "?m \<notin> set ss" using assms(2) sn' by (metis distinct.simps(2))
  from field_result_Inr[OF d sn' nin] obtain F where
    la: "list_all2 (\<lambda>s b. sweep_field X v A f s = Inr b
                   \<and> map length b = map length (hd F)) (sweep_number v) F"
    and me: "masked_equal_min (astype_m (fdtype f) (concat F)) = Inr d" by (elim exE conjE)
  have len: "length F = length (sweep_number v)" using list_all2_lengthD[OF la] by simp
  have sweeps: "\<forall>j < length F. \<exists>r mr fs fm.
           resample X v A f (sweep_number v ! j) = Inr (r, mr, fs)
         \<and> masked_where_ge r mr fs = Inr fm
         \<and> F ! j = spec_mask_minimum fm
         \<and> (\<forall>g\<in>set (concat (F ! j)). \<not> snd g \<longrightarrow> (\<exists>y\<in>set (unmasked fm). y < fst g))"
  proof (intro allI impI)
    fix j assume j: "j < length F"
    have sf: "sweep_field X v A f (sweep_number v ! j) = Inr (F ! j)"
      using la j len by (simp add: list_all2_conv_all_nth)
    from sf obtain r mr fs fm where rs: "resample X v A f (sweep_number v ! j) = Inr (r, mr, fs)"
      and mw: "masked_where_ge r mr fs = Inr fm" and mq: "masked_equal_min fm = Inr (F ! j)"
      by (rule sweep_field_Inr)
    have sp: "F ! j = spec_mask_minimum fm" using mq by (rule masked_equal_min_spec)
    have va: "\<forall>g\<in>set (concat (F ! j)). \<not> snd g \<longrightarrow> (\<exists>y\<in>set (unmasked fm). y < fst g)"
      using spec_mask_minimum_valid(2)[of _ fm] sp by simp
    show "\<exists>r mr fs fm.
           resample X v A f (sweep_number v ! j) = Inr (r, mr, fs)
         \<and> masked_where_ge r mr fs = Inr fm
         \<and> F ! j = spec_mask_minimum fm
         \<and> (\<forall>g\<in>set (concat (F ! j)). \<not> snd g \<longrightarrow> (\<exists>y\<in>set (unmasked fm). y < fst g))"
      by (rule exI[of _ r], rule exI[of _ mr], rule exI[of _ fs], rule exI[of _ fm])
        (intro conjI rs mw sp va)
  qed
  have dd: "d = spec_mask_minimum (astype_m (fdtype f) (concat F))"
    using me by (rule masked_equal_min_spec)
  have vd: "\<forall>g\<in>set (concat d). \<not> snd g \<longrightarrow>
           (\<exists>y\<in>set (unmasked (astype_m (fdtype f) (concat F))). y < fst g)"
    using spec_mask_minimum_valid(2)[of _ "astype_m (fdtype f) (concat F)"] dd by simp
  show ?thesis
    by (rule exI[of _ af], rule exI[of _ A], rule exI[of _ E], rule exI[of _ I],
        rule exI[of _ F], rule exI[of _ d])
      (intro conjI g len sweeps dd vd mo)
qed

theorem minimum_masked_twice_witness:
  "main X0 v0 = Inr v1 \<and> distinct (sweep_number v0) \<and> distinct (map fst (fields_dict v0))
   \<and> (''dbz'', snd (hd (fields_dict v0))) \<in> set (fields_dict v0)
   \<and> resample X0 v0 [[0, 10], [0, 10]] (snd (hd (fields_dict v0))) 0
       = Inr ([[1, 2, 3], [1, 2, 3]], 100,
              [[(4, False), (5, False), (6, False)], [(1, False), (2, False), (3, False)]])
   \<and> spec_mask_minimum [[(4, False), (5, False), (6, False)], [(1, False), (2, False), (3, False)]]
       = [[(4, False), (5, False), (6, False)], [(1, True), (2, False), (3, False)]]
   \<and> (\<exists>F. length F = 2
          \<and> F ! 0 = [[(4, False), (5, False), (6, False)], [(1, True), (2, False), (3, False)]]
          \<and> fdata (snd (hd (fields_dict v1))) = spec_mask_minimum (astype_m DFloat (concat F)))"
proof -
  let ?f = "snd (hd (fields_dict v0))"
  let ?fs = "[[(4, False), (5, False), (6, False)], [(1, False), (2, False), (3, False)]]
               :: marray"
  let ?b = "[[(4, False), (5, False), (6, False)], [(1, True), (2, False), (3, False)]]
               :: marray"
  have a: "main X0 v0 = Inr v1" by code_simp
  have b: "distinct (sweep_number v0)" by (simp add: v0_def)
  have c: "distinct (map fst (fields_dict v0))" by (simp add: v0_def)
  have d: "(''dbz'', ?f) \<in> set (fields_dict v0)" by (simp add: v0_def)
  have e: "grid_loop v0 (min_list (sweep_number v0)) None (sweep_number v0)
             = Inr (Some ([10, 0], [[0, 10], [0, 10]], [[2, 1], [3, 4]], [[1, 0], [0, 1]]))"
    by code_simp
  have h: "resample X0 v0 [[0, 10], [0, 10]] ?f 0 = Inr ([[1, 2, 3], [1, 2, 3]], 100, ?fs)"
    by code_simp
  have i: "masked_where_ge [[1, 2, 3], [1, 2, 3]] 100 ?fs = Inr ?fs" by code_simp
  have k: "spec_mask_minimum ?fs = ?b" by code_simp
  have l: "sweep_number v0 ! 0 = 0" "length (sweep_number v0) = 2" "fdtype ?f = DFloat"
    by (simp_all add: v0_def)
  have n: "map_of (fields_dict v1) ''dbz'' = Some (snd (hd (fields_dict v1)))"
    by (simp add: v1_def)
  from minimum_masked_twice [OF a b c d] obtain af A E I F dd where
    g: "grid_loop v0 (min_list (sweep_number v0)) None (sweep_number v0)
          = Inr (Some (af, A, E, I))"
    and len: "length F = length (sweep_number v0)"
    and sw: "\<forall>j < length F. \<exists>r mr fs fm.
           resample X0 v0 A ?f (sweep_number v0 ! j) = Inr (r, mr, fs)
         \<and> masked_where_ge r mr fs = Inr fm
         \<and> F ! j = spec_mask_minimum fm
         \<and> (\<forall>g\<in>set (concat (F ! j)). \<not> snd g \<longrightarrow> (\<exists>y\<in>set (unmasked fm). y < fst g))"
    and dd: "dd = spec_mask_minimum (astype_m (fdtype ?f) (concat F))"
    and mo: "map_of (fields_dict v1) ''dbz'' = Some (?f\<lparr>fdata := dd\<rparr>)"
    by (elim exE conjE)
  have A: "A = [[0, 10], [0, 10]]" using g e by simp
  have "0 < length F" using len l(2) by simp
  with sw obtain r mr fs fm where
    "resample X0 v0 A ?f (sweep_number v0 ! 0) = Inr (r, mr, fs)"
    "masked_where_ge r mr fs = Inr fm" "F ! 0 = spec_mask_minimum fm" by blast
  then have F0: "F ! 0 = ?b" using A l(1) h i k by simp
  have "fdata (snd (hd (fields_dict v1))) = dd" using mo n by simp
  then have fd: "fdata (snd (hd (fields_dict v1))) = spec_mask_minimum (astype_m DFloat (concat F))"
    using dd l(3) by simp
  have ex: "\<exists>F. length F = 2 \<and> F ! 0 = ?b
          \<and> fdata (snd (hd (fields_dict v1))) = spec_mask_minimum (astype_m DFloat (concat F))"
    by (rule exI[of _ F]) (use len l(2) F0 fd in simp)
  show ?thesis by (intro conjI a b c d h k ex)
qed

text \<open>
  Claim C2, the part that fails. The data of a field after the run are not an array of the
  shape (sweeps, rays, gates): \<^verbatim>\<open>np.ma.vstack\<close> at line 132 puts the blocks of the sweeps
  one under the other, so the first axis counts the rays of the whole volume. For the two
  sweeps of two rays of \<open>v0\<close> it has four entries, not two.
\<close>

theorem field_shape_counterexample:
  "main X0 v0 = Inr v1 \<and> length (sweep_number v0) = 2 \<and> ref_ray_count v0 = 2
   \<and> length (range_data v0) = 3
   \<and> length (fdata (snd (hd (fields_dict v1)))) = 4
   \<and> map length (fdata (snd (hd (fields_dict v1)))) = [3, 3, 3, 3]
   \<and> length (fdata (snd (hd (fields_dict v1)))) \<noteq> length (sweep_number v0)"
proof -
  have a: "main X0 v0 = Inr v1" by code_simp
  have b: "ref_ray_count v0 = 2" by code_simp
  show ?thesis using a b by (simp add: v0_def v1_def)
qed

text \<open>
  Claim C2, amended. When \<^verbatim>\<open>main\<close> has returned on a volume of \<open>n\<close> sweeps with distinct
  sweep numbers, \<open>k\<close> being the ray count of the lowest sweep: the azimuths of every sweep
  of the result are the \<open>k\<close> entries of its row of the grid, which is sorted, cast to the type
  \<open>t\<close> of the last field, and they are sorted when the cast is in the range of \<open>t\<close>; the
  data of every field have \<open>n * k\<close> rows, one for every ray of the volume, each with one
  entry for every gate of the range array.
\<close>

theorem homogeneous_output:
  assumes "main X v = Inr v'" and "distinct (sweep_number v)"
    and "distinct (map fst (fields_dict v))" and "interp2d_shape X"
    and "n = length (sweep_number v)" and "k = ref_ray_count v"
    and "t = fdtype (snd (last (fields_dict v)))"
  shows "(\<exists>af A E I.
            grid_loop v (min_list (sweep_number v)) None (sweep_number v)
              = Inr (Some (af, A, E, I))
          \<and> (\<forall>j < n. get_slice v' j = Inr (j * k, (j + 1) * k)
                \<and> slice (j * k, (j + 1) * k) (azimuth v') = map (astype t) (A ! j)
                \<and> length (slice (j * k, (j + 1) * k) (azimuth v')) = k
                \<and> sorted (A ! j)
                \<and> ((\<forall>x\<in>set (A ! j). in_range t x) \<longrightarrow>
                     sorted (slice (j * k, (j + 1) * k) (azimuth v')))))
       \<and> (\<forall>(name, f)\<in>set (fields_dict v).
            \<exists>d. map_of (fields_dict v') name = Some (f\<lparr>fdata := d\<rparr>)
               \<and> length d = n * k
               \<and> (\<forall>row\<in>set d. length row = length (range_data v)))"
proof -
  let ?m = "min_list (sweep_number v)"
  from assms(1,3) obtain af A E I where
    g: "grid_loop v ?m None (sweep_number v) = Inr (Some (af, A, E, I))"
    and az: "azimuth v' = map (astype (fdtype (snd (last (fields_dict v))))) (concat A)"
    and each: "\<forall>(name, f)\<in>set (fields_dict v). \<exists>d. field_result X v A ?m f = Inr d
         \<and> map_of (fields_dict v') name = Some (f\<lparr>fdata := d\<rparr>)"
    by (rule main_char)
  have ne: "sweep_number v \<noteq> []" using g by (cases "sweep_number v") auto
  note gd = grid_loop_distinct[OF g assms(2) ne]
  have rows: "\<forall>row\<in>set A. length row = k" using gd(4) assms(6) by simp
  have lA: "length A = n" using gd(2) assms(5) by simp
  have az': "azimuth v' = map (astype t) (concat A)" using az assms(7) by simp
  have sweeps: "\<forall>j < n. get_slice v' j = Inr (j * k, (j + 1) * k)
                \<and> slice (j * k, (j + 1) * k) (azimuth v') = map (astype t) (A ! j)
                \<and> length (slice (j * k, (j + 1) * k) (azimuth v')) = k
                \<and> sorted (A ! j)
                \<and> ((\<forall>x\<in>set (A ! j). in_range t x) \<longrightarrow>
                     sorted (slice (j * k, (j + 1) * k) (azimuth v')))"
  proof (intro allI impI)
    fix j assume j: "j < n"
    then have jA: "j < length A" using lA by simp
    then have mem: "A ! j \<in> set A" by simp
    have s1: "get_slice v' j = Inr (j * k, (j + 1) * k)"
      using main_get_slice[OF assms(1,2)] j assms(5,6) by simp
    have s2: "slice (j * k, (j + 1) * k) (azimuth v') = map (astype t) (A ! j)"
      using slice_concat[OF rows jA] az' by (simp add: slice_map)
    have s3: "length (slice (j * k, (j + 1) * k) (azimuth v')) = k"
      using s2 rows mem by simp
    have s4: "sorted (A ! j)" using gd(4) mem by simp
    have s5: "(\<forall>x\<in>set (A ! j). in_range t x) \<longrightarrow>
                     sorted (slice (j * k, (j + 1) * k) (azimuth v'))"
      using s2 s4 sorted_map_astype[of "A ! j" t] by simp
    show "get_slice v' j = Inr (j * k, (j + 1) * k)
                \<and> slice (j * k, (j + 1) * k) (azimuth v') = map (astype t) (A ! j)
                \<and> length (slice (j * k, (j + 1) * k) (azimuth v')) = k
                \<and> sorted (A ! j)
                \<and> ((\<forall>x\<in>set (A ! j). in_range t x) \<longrightarrow>
                     sorted (slice (j * k, (j + 1) * k) (azimuth v')))"
      by (intro conjI s1 s2 s3 s4 s5)
  qed
  have fields: "\<forall>(name, f)\<in>set (fields_dict v).
            \<exists>d. map_of (fields_dict v') name = Some (f\<lparr>fdata := d\<rparr>)
               \<and> length d = n * k
               \<and> (\<forall>row\<in>set d. length row = length (range_data v))"
  proof (clarify)
    fix name f assume "(name, f) \<in> set (fields_dict v)"
    with each obtain d where d: "field_result X v A ?m f = Inr d"
      and mo: "map_of (fields_dict v') name = Some (f\<lparr>fdata := d\<rparr>)" by blast
    note sh = field_result_shape[OF d g assms(2,4)]
    show "\<exists>d. map_of (fields_dict v') name = Some (f\<lparr>fdata := d\<rparr>)
               \<and> length d = n * k
               \<and> (\<forall>row\<in>set d. length row = length (range_data v))"
      by (rule exI[of _ d]) (use mo sh assms(5,6) in simp)
  qed
  show ?thesis
    by (rule conjI, rule exI[of _ af], rule exI[of _ A], rule exI[of _ E], rule exI[of _ I],
        rule conjI, rule g, rule sweeps, rule fields)
qed

theorem homogeneous_output_witness:
  "main X0 v0 = Inr v1 \<and> distinct (sweep_number v0) \<and> distinct (map fst (fields_dict v0))
   \<and> interp2d_shape X0 \<and> length (sweep_number v0) = 2 \<and> ref_ray_count v0 = 2
   \<and> get_slice v1 1 = Inr (1 * 2, (1 + 1) * 2)
   \<and> slice (1 * 2, (1 + 1) * 2) (azimuth v1) = [0, 10]
   \<and> sorted (slice (1 * 2, (1 + 1) * 2) (azimuth v1))
   \<and> length (fdata (snd (hd (fields_dict v1)))) = 2 * 2"
proof -
  have a: "main X0 v0 = Inr v1" by code_simp
  have b: "distinct (sweep_number v0)" by (simp add: v0_def)
  have c: "distinct (map fst (fields_dict v0))" by (simp add: v0_def)
  have d: "interp2d_shape X0" by (simp add: interp2d_shape_def X0_def)
  have e: "length (sweep_number v0) = 2" by (simp add: v0_def)
  have f: "ref_ray_count v0 = 2" by code_simp
  have h: "fdtype (snd (last (fields_dict v0))) = DFloat" by (simp add: v0_def)
  have i: "grid_loop v0 (min_list (sweep_number v0)) None (sweep_number v0)
             = Inr (Some ([10, 0], [[0, 10], [0, 10]], [[2, 1], [3, 4]], [[1, 0], [0, 1]]))"
    by code_simp
  have k: "(''dbz'', snd (hd (fields_dict v0))) \<in> set (fields_dict v0)" by (simp add: v0_def)
  have l: "map_of (fields_dict v1) ''dbz'' = Some (snd (hd (fields_dict v1)))"
    by (simp add: v1_def)
  note inst = homogeneous_output [OF a b c d e[symmetric] f[symmetric] h[symmetric]]
  from inst obtain af A E I where
    g: "grid_loop v0 (min_list (sweep_number v0)) None (sweep_number v0)
          = Inr (Some (af, A, E, I))"
    and sw: "\<forall>j < 2. get_slice v1 j = Inr (j * 2, (j + 1) * 2)
                \<and> slice (j * 2, (j + 1) * 2) (azimuth v1) = map (astype DFloat) (A ! j)
                \<and> length (slice (j * 2, (j + 1) * 2) (azimuth v1)) = 2
                \<and> sorted (A ! j)
                \<and> ((\<forall>x\<in>set (A ! j). in_range DFloat x) \<longrightarrow>
                     sorted (slice (j * 2, (j + 1) * 2) (azimuth v1)))"
    by blast
  have A: "A = [[0, 10], [0, 10]]" using g i by simp
  have one: "(1::nat) < 2" by simp
  have w1: "get_slice v1 1 = Inr (1 * 2, (1 + 1) * 2)
                \<and> slice (1 * 2, (1 + 1) * 2) (azimuth v1) = map (astype DFloat) (A ! 1)
                \<and> length (slice (1 * 2, (1 + 1) * 2) (azimuth v1)) = 2
                \<and> sorted (A ! 1)
                \<and> ((\<forall>x\<in>set (A ! 1). in_range DFloat x) \<longrightarrow>
                     sorted (slice (1 * 2, (1 + 1) * 2) (azimuth v1)))"
    using sw one by blast
  have s1: "get_slice v1 1 = Inr (1 * 2, (1 + 1) * 2)" using w1 by blast
  have "slice (1 * 2, (1 + 1) * 2) (azimuth v1) = map (astype DFloat) (A ! 1)"
    using w1 by blast
  then have s2: "slice (1 * 2, (1 + 1) * 2) (azimuth v1) = [0, 10]" using A by simp
  have "(\<forall>x\<in>set (A ! 1). in_range DFloat x) \<longrightarrow>
                     sorted (slice (1 * 2, (1 + 1) * 2) (azimuth v1))" using w1 by blast
  moreover have "\<forall>x\<in>set (A ! 1). in_range DFloat x" by simp
  ultimately have s3: "sorted (slice (1 * 2, (1 + 1) * 2) (azimuth v1))" by blast
  from inst k obtain dd where
    "map_of (fields_dict v1) ''dbz'' = Some ((snd (hd (fields_dict v0)))\<lparr>fdata := dd\<rparr>)"
    "length dd = 2 * 2" by blast
  then have s4: "length (fdata (snd (hd (fields_dict v1)))) = 2 * 2" using l by simp
  show ?thesis by (intro conjI a b c d e f s1 s2 s3 s4)
qed

end
